theory Spec2Isabelle
  imports Main "HOL-Library.Word" "HOL-Library.Signed_Division"
begin

unbundle bit_operations_syntax

section \<open>The PPG streaming firmware (Embedded System/main.cpp)\<close>

text \<open>
  The firmware reads (IR, Red) sample pairs from a MAX30105 sensor into a ring buffer,
  cuts the buffer into chunks, packs each chunk into BLE notification packets and is
  driven by one-byte commands (\<open>'S'\<close> start, \<open>'P'\<close> pause) of the connected central.

  The target is a 32-bit ARM board: \<open>int\<close> is a 32-bit signed integer, \<open>unsigned long\<close>
  and \<open>uint32_t\<close> are 32-bit words, \<open>uint8_t\<close> is an 8-bit word. The \<open>int\<close> globals
  (indices and the fill count) are modelled as unbounded \<open>int\<close>, with C's truncating
  \<open>%\<close> as \<open>smod\<close>; the invariant proved below keeps them inside \<open>[0, BUFFER_SIZE]\<close>,
  so no signed overflow can occur. The unsigned counters are words and wrap around.
\<close>

type_synonym u8 = "8 word"
type_synonym u32 = "32 word"

subsection \<open>Constants (lines 9--42)\<close>

definition SAMPLE_RATE :: int where
  "SAMPLE_RATE = 200"

definition BUFFER_HEADROOM_SECONDS :: int where
  "BUFFER_HEADROOM_SECONDS = 5"

definition PACKET_PACING_MS :: int where
  "PACKET_PACING_MS = 3"

definition BATCH_SIZE :: int where
  "BATCH_SIZE = 16"

definition BUFFER_SIZE :: int where
  "BUFFER_SIZE = SAMPLE_RATE * BUFFER_HEADROOM_SECONDS"

text \<open>
  \<open>RAW_CHUNK_SIZE = (int)(SAMPLE_RATE * CHUNK_SECONDS + 0.5f)\<close> with
  \<open>CHUNK_SECONDS = 0.20f\<close>: the compiler evaluates the float expression to \<open>40.5\<close>
  and truncates it. The model writes \<open>0.20\<close> as \<open>20 / 100\<close> in integer arithmetic.
\<close>

definition RAW_CHUNK_SIZE :: int where
  "RAW_CHUNK_SIZE = (SAMPLE_RATE * 20 + 50) sdiv 100"

definition CHUNK_SIZE :: int where
  "CHUNK_SIZE = (RAW_CHUNK_SIZE sdiv BATCH_SIZE) * BATCH_SIZE"

definition PACKET_SIZE :: int where
  "PACKET_SIZE = 1 + BATCH_SIZE * 8"

definition DEBUG_NONE :: int where
  "DEBUG_NONE = 0"

definition DEBUG_INFO :: int where
  "DEBUG_INFO = 1"

definition DEBUG_VERBOSE :: int where
  "DEBUG_VERBOSE = 2"

text \<open>
  The source fixes \<open>DEBUG_LEVEL = DEBUG_NONE\<close> at build time. The functions below take
  the level as their first argument \<open>dl\<close>, so that statements about the diagnostics hold
  for every build; \<open>DEBUG_LEVEL\<close> is the value of the source as it stands.
\<close>

definition DEBUG_LEVEL :: int where
  "DEBUG_LEVEL = DEBUG_NONE"

subsection \<open>Global state (lines 54--68)\<close>

record pipeline =
  seqNumber :: u8
  irRingBuffer :: "u32 list"
  redRingBuffer :: "u32 list"
  writeIndex :: int
  readIndex :: int
  bufferCount :: int
  irChunk :: "u32 list"
  redChunk :: "u32 list"
  streamingStartTime :: u32
  totalSamplesDuringStream :: u32
  streaming :: bool
  sensorConfigured :: bool

text \<open>The globals as the C runtime initialises them: the arrays are zero-filled.\<close>

definition init_state :: pipeline where
  "init_state =
     \<lparr> seqNumber = 0,
       irRingBuffer = replicate (nat BUFFER_SIZE) 0,
       redRingBuffer = replicate (nat BUFFER_SIZE) 0,
       writeIndex = 0, readIndex = 0, bufferCount = 0,
       irChunk = replicate (nat CHUNK_SIZE) 0,
       redChunk = replicate (nat CHUNK_SIZE) 0,
       streamingStartTime = 0, totalSamplesDuringStream = 0,
       streaming = False, sensorConfigured = False \<rparr>"

text \<open>
  The arrays have the sizes of their declarations. In C this is part of the type; a list
  does not carry its length, so the model states it as a predicate.
\<close>

definition arrays_ok :: "pipeline \<Rightarrow> bool" where
  "arrays_ok s \<longleftrightarrow>
     length (irRingBuffer s) = nat BUFFER_SIZE \<and> length (redRingBuffer s) = nat BUFFER_SIZE \<and>
     length (irChunk s) = nat CHUNK_SIZE \<and> length (redChunk s) = nat CHUNK_SIZE"

subsection \<open>What the firmware does to the outside\<close>

text \<open>
  Every call on the serial port, the sensor driver and the BLE stack that changes something
  outside the pipeline is recorded, in order, as an effect. The session summary carries the
  three values all its printed figures are computed from: the elapsed milliseconds
  \<open>millis() - streamingStartTime\<close> (unsigned, wrapping), \<open>totalSamplesDuringStream\<close>
  and \<open>seqNumber\<close> (printed as "Chunks sent"). The printed duration, expected count,
  missed count and miss rate are float functions of the first two.
\<close>

datatype effect =
    SerialDebug string
  | SerialChunkSent int
  | SerialSummary u32 u32 u8
  | SensorSetup
  | SensorClearFIFO
  | SensorShutDown
  | BleNotify "u8 list"
  | PacingDelay
  | BleAdvertise

fun isSummary :: "effect \<Rightarrow> bool" where
  "isSummary (SerialSummary e c n) = True"
| "isSummary _ = False"

subsection \<open>Diagnostics (lines 75--101)\<close>

text \<open>The timestamp prefix of a debug line is left out of the model.\<close>

definition debugPrint :: "int \<Rightarrow> int \<Rightarrow> string \<Rightarrow> effect list" where
  "debugPrint dl level msg = (if level \<le> dl then [SerialDebug msg] else [])"

definition printStreamingSummary :: "u32 \<Rightarrow> pipeline \<Rightarrow> effect list" where
  "printStreamingSummary now s =
     (if totalSamplesDuringStream s = 0 then []
      else [SerialSummary (now - streamingStartTime s) (totalSamplesDuringStream s) (seqNumber s)])"

subsection \<open>Sensor set-up and reset (lines 117--157)\<close>

definition configureSensor :: "int \<Rightarrow> pipeline \<Rightarrow> pipeline \<times> effect list" where
  "configureSensor dl s =
     (s\<lparr>sensorConfigured := True\<rparr>,
      [SensorSetup, SensorClearFIFO] @ debugPrint dl DEBUG_INFO ''Sensor configured for 200 Hz streaming'')"

definition shutdownSensor :: "int \<Rightarrow> pipeline \<Rightarrow> pipeline \<times> effect list" where
  "shutdownSensor dl s =
     (if sensorConfigured s
      then (s\<lparr>sensorConfigured := False\<rparr>,
            SensorShutDown # debugPrint dl DEBUG_INFO ''Sensor shut down (power saving)'')
      else (s, []))"

definition resetStreamingState :: "int \<Rightarrow> pipeline \<Rightarrow> pipeline \<times> effect list" where
  "resetStreamingState dl s =
     (s\<lparr>streaming := False, seqNumber := 0, bufferCount := 0, readIndex := 0, writeIndex := 0,
        totalSamplesDuringStream := 0\<rparr>,
      debugPrint dl DEBUG_INFO ''Streaming state reset'')"

subsection \<open>Acquisition (lines 163--188)\<close>

text \<open>
  One iteration of the \<open>while (particleSensor.available())\<close> loop, for the sample
  \<open>(ir, red)\<close> at the head of the sensor's FIFO: the sample is stored if the ring buffer
  has room and dropped otherwise; it is counted either way.
\<close>

definition pollStep :: "int \<Rightarrow> u32 \<times> u32 \<Rightarrow> pipeline \<Rightarrow> pipeline \<times> effect list" where
  "pollStep dl x s =
     (let (s1, out) =
        (if bufferCount s < BUFFER_SIZE
         then (s\<lparr>irRingBuffer := (irRingBuffer s)[nat (writeIndex s) := fst x],
                 redRingBuffer := (redRingBuffer s)[nat (writeIndex s) := snd x],
                 writeIndex := (writeIndex s + 1) smod BUFFER_SIZE,
                 bufferCount := bufferCount s + 1\<rparr>, [])
         else (s, debugPrint dl DEBUG_INFO ''BUFFER OVERFLOW''))
      in (s1\<lparr>totalSamplesDuringStream := totalSamplesDuringStream s1 + 1\<rparr>, out))"

text \<open>
  The loop itself: \<open>avail\<close> is the content of the sensor's FIFO after
  \<open>particleSensor.check()\<close>, oldest sample first; the loop runs until it is empty.
\<close>

fun pollLoop :: "int \<Rightarrow> (u32 \<times> u32) list \<Rightarrow> int \<Rightarrow> pipeline \<Rightarrow> int \<times> pipeline \<times> effect list" where
  "pollLoop dl [] samplesRead s = (samplesRead, s, [])"
| "pollLoop dl (x # avail) samplesRead s =
     (let (s1, out1) = pollStep dl x s;
          (n, s2, out2) = pollLoop dl avail (samplesRead + 1) s1
      in (n, s2, out1 @ out2))"

definition pollSensor :: "int \<Rightarrow> (u32 \<times> u32) list \<Rightarrow> pipeline \<Rightarrow> int \<times> pipeline \<times> effect list" where
  "pollSensor dl avail s = (if \<not> streaming s then (0, s, []) else pollLoop dl avail 0 s)"

subsection \<open>Extraction (lines 194--205)\<close>

function extractLoop :: "int \<Rightarrow> pipeline \<Rightarrow> pipeline" where
  "extractLoop i s =
     (if i < CHUNK_SIZE
      then extractLoop (i + 1)
             (s\<lparr>irChunk := (irChunk s)[nat i := irRingBuffer s ! nat (readIndex s)],
               redChunk := (redChunk s)[nat i := redRingBuffer s ! nat (readIndex s)],
               readIndex := (readIndex s + 1) smod BUFFER_SIZE\<rparr>)
      else s)"
  by pat_completeness auto
termination
  by (relation "measure (\<lambda>(i, s). nat (CHUNK_SIZE - i))") auto

declare extractLoop.simps [simp del]

definition extractChunk :: "pipeline \<Rightarrow> bool \<times> pipeline" where
  "extractChunk s =
     (if bufferCount s < CHUNK_SIZE then (False, s)
      else (let s1 = extractLoop 0 s
            in (True, s1\<lparr>bufferCount := bufferCount s1 - CHUNK_SIZE\<rparr>)))"

subsection \<open>Packing and transmission (lines 207--243)\<close>

text \<open>The eight stores of lines 223--230, each \<open>packet[idx++] = ...\<close> narrowing to a byte.\<close>

definition packSample :: "u8 list \<Rightarrow> int \<Rightarrow> u32 \<Rightarrow> u32 \<Rightarrow> u8 list \<times> int" where
  "packSample packet idx ir red =
     (packet[nat idx := ucast (drop_bit 24 ir AND 0xFF),
             nat (idx + 1) := ucast (drop_bit 16 ir AND 0xFF),
             nat (idx + 2) := ucast (drop_bit 8 ir AND 0xFF),
             nat (idx + 3) := ucast (ir AND 0xFF),
             nat (idx + 4) := ucast (drop_bit 24 red AND 0xFF),
             nat (idx + 5) := ucast (drop_bit 16 red AND 0xFF),
             nat (idx + 6) := ucast (drop_bit 8 red AND 0xFF),
             nat (idx + 7) := ucast (red AND 0xFF)],
      idx + 8)"

text \<open>The inner loop over the samples \<open>sI\<close> of packet \<open>p\<close>.\<close>

function packBatch :: "u32 list \<Rightarrow> u32 list \<Rightarrow> int \<Rightarrow> int \<Rightarrow> int \<Rightarrow> u8 list \<Rightarrow> u8 list" where
  "packBatch irC redC p sI idx packet =
     (if sI < BATCH_SIZE
      then (let ir = irC ! nat (p * BATCH_SIZE + sI);
                red = redC ! nat (p * BATCH_SIZE + sI);
                (packet1, idx1) = packSample packet idx ir red
            in packBatch irC redC p (sI + 1) idx1 packet1)
      else packet)"
  by pat_completeness auto
termination
  by (relation "measure (\<lambda>(irC, redC, p, sI, idx, packet). nat (BATCH_SIZE - sI))") auto

declare packBatch.simps [simp del]

text \<open>
  The outer loop over the packets of one chunk. The local array \<open>packet\<close> is not
  initialised in the source; the model starts it from zeros and every byte is overwritten.
\<close>

function sendPackets :: "u8 \<Rightarrow> u32 list \<Rightarrow> u32 list \<Rightarrow> int \<Rightarrow> int \<Rightarrow> effect list" where
  "sendPackets sq irC redC numPackets p =
     (if p < numPackets
      then (let packet = (replicate (nat PACKET_SIZE) 0)[0 := sq];
                packet = packBatch irC redC p 0 1 packet
            in [BleNotify packet, PacingDelay] @ sendPackets sq irC redC numPackets (p + 1))
      else [])"
  by pat_completeness auto
termination
  by (relation "measure (\<lambda>(sq, irC, redC, numPackets, p). nat (numPackets - p))") auto

declare sendPackets.simps [simp del]

text \<open>
  The closing diagnostic prints \<open>seqNumber - 1\<close>: the byte is promoted to \<open>int\<close> before
  the subtraction.
\<close>

definition transmitChunk :: "int \<Rightarrow> pipeline \<Rightarrow> bool \<times> pipeline \<times> effect list" where
  "transmitChunk dl s =
     (case extractChunk s of
        (False, s1) \<Rightarrow> (False, s1, [])
      | (True, s1) \<Rightarrow>
          (let s2 = s1\<lparr>seqNumber := seqNumber s1 + 1\<rparr>;
               numPackets = CHUNK_SIZE sdiv BATCH_SIZE
           in (True, s2,
               sendPackets (seqNumber s2) (irChunk s2) (redChunk s2) numPackets 0 @
               (if dl \<ge> DEBUG_INFO then [SerialChunkSent (uint (seqNumber s2) - 1)] else []))))"

subsection \<open>Commands (lines 249--269)\<close>

text \<open>
  \<open>written\<close> is \<open>None\<close> when \<open>commandChar.written()\<close> is false, and \<open>Some cmd\<close> with the
  first byte of the characteristic's value otherwise; \<open>now\<close> is what \<open>millis()\<close> returns
  during the call.
\<close>

definition handleCommands :: "int \<Rightarrow> u32 \<Rightarrow> char option \<Rightarrow> pipeline \<Rightarrow> bool \<times> pipeline \<times> effect list" where
  "handleCommands dl now written s =
     (case written of
        None \<Rightarrow> (False, s, [])
      | Some cmd \<Rightarrow>
          if cmd = CHR ''S'' \<and> \<not> streaming s then
            (let out0 = debugPrint dl DEBUG_INFO ''Command: START streaming'';
                 (s1, out1) = (if \<not> sensorConfigured s then configureSensor dl s else (s, []))
             in (True, s1\<lparr>streaming := True, streamingStartTime := now\<rparr>, out0 @ out1))
          else if cmd = CHR ''P'' then
            (let out0 = debugPrint dl DEBUG_INFO ''Command: PAUSE streaming'';
                 s1 = s\<lparr>streaming := False\<rparr>
             in (True, s1, out0 @ printStreamingSummary now s1))
          else (False, s, []))"

subsection \<open>Disconnect and the main loop (lines 275--309)\<close>

definition handleDisconnect :: "int \<Rightarrow> u32 \<Rightarrow> pipeline \<Rightarrow> pipeline \<times> effect list" where
  "handleDisconnect dl now s =
     (let out0 = printStreamingSummary now s;
          (s1, out1) = resetStreamingState dl s;
          (s2, out2) = shutdownSensor dl s1
      in (s2, out0 @ out1 @ out2 @ [BleAdvertise] @
              debugPrint dl DEBUG_INFO ''Disconnected - re-advertising''))"

text \<open>
  What can happen to the pipeline, one call at a time: a central connects
  (\<open>resetStreamingState\<close>), the three calls of the loop body, and the disconnect.
  \<open>BLE.poll()\<close> touches no pipeline state.
\<close>

datatype event =
    Connect
  | Command "char option" u32
  | Poll "(u32 \<times> u32) list"
  | Transmit
  | Disconnect u32

fun exec :: "int \<Rightarrow> event \<Rightarrow> pipeline \<Rightarrow> pipeline \<times> effect list" where
  "exec dl Connect s = resetStreamingState dl s"
| "exec dl (Command written now) s = snd (handleCommands dl now written s)"
| "exec dl (Poll avail) s = snd (pollSensor dl avail s)"
| "exec dl Transmit s = snd (transmitChunk dl s)"
| "exec dl (Disconnect now) s = handleDisconnect dl now s"

fun run :: "int \<Rightarrow> event list \<Rightarrow> pipeline \<Rightarrow> pipeline \<times> effect list" where
  "run dl [] s = (s, [])"
| "run dl (e # es) s =
     (let (s1, out1) = exec dl e s;
          (s2, out2) = run dl es s1
      in (s2, out1 @ out2))"

text \<open>
  \<open>loop()\<close> for one connection: the reset, one pass of the \<open>while (central.connected())\<close>
  body per element of \<open>passes\<close> (the command written, the clock and the sensor's FIFO
  content seen by that pass), and the disconnect handler.
\<close>

definition passEvents :: "char option \<times> u32 \<times> (u32 \<times> u32) list \<Rightarrow> event list" where
  "passEvents p = [Command (fst p) (fst (snd p)), Poll (snd (snd p)), Transmit]"

definition loopEvents :: "(char option \<times> u32 \<times> (u32 \<times> u32) list) list \<Rightarrow> u32 \<Rightarrow> event list" where
  "loopEvents passes nowD = Connect # concat (map passEvents passes) @ [Disconnect nowD]"

definition loop :: "int \<Rightarrow> (char option \<times> u32 \<times> (u32 \<times> u32) list) list \<Rightarrow> u32 \<Rightarrow> pipeline \<Rightarrow> pipeline \<times> effect list" where
  "loop dl passes nowD s = run dl (loopEvents passes nowD) s"

section \<open>Invariants and observers\<close>

text \<open>The ranges of the fill count and of the two indices.\<close>

definition in_range :: "pipeline \<Rightarrow> bool" where
  "in_range s \<longleftrightarrow> 0 \<le> bufferCount s \<and> bufferCount s \<le> BUFFER_SIZE \<and>
     0 \<le> writeIndex s \<and> writeIndex s < BUFFER_SIZE \<and> 0 \<le> readIndex s \<and> readIndex s < BUFFER_SIZE"

text \<open>A run that fills the ring buffer: connect, start, and a poll that finds 1000 samples.\<close>

definition fillEvents :: "event list" where
  "fillEvents = [Connect, Command (Some CHR ''S'') 0, Poll (replicate 1000 (1, 2))]"

text \<open>
  The samples the ring buffer holds, oldest first: \<open>bufferCount\<close> slots starting at
  \<open>readIndex\<close>, wrapping at \<open>BUFFER_SIZE\<close>.
\<close>

definition buffered :: "pipeline \<Rightarrow> (u32 \<times> u32) list" where
  "buffered s =
     map (\<lambda>k. (irRingBuffer s ! nat ((readIndex s + int k) mod BUFFER_SIZE),
                redRingBuffer s ! nat ((readIndex s + int k) mod BUFFER_SIZE)))
         [0..<nat (bufferCount s)]"

text \<open>
  The ring-buffer invariant: the ranges, the array sizes, and the write index lying
  \<open>bufferCount\<close> slots after the read index.
\<close>

definition buf_inv :: "pipeline \<Rightarrow> bool" where
  "buf_inv s \<longleftrightarrow> in_range s \<and> arrays_ok s \<and>
     writeIndex s = (readIndex s + bufferCount s) mod BUFFER_SIZE"

text \<open>
  Interleavings of acquisition and extraction: \<open>Acquire avail\<close> is a call of
  \<open>pollSensor\<close> that finds the samples \<open>avail\<close>, \<open>Extract\<close> a call of \<open>extractChunk\<close>.
  \<open>bufRun\<close> returns the final state and the chunks the successful extractions produced,
  as read from \<open>irChunk\<close> and \<open>redChunk\<close>.
\<close>

datatype bufop = Acquire "(u32 \<times> u32) list" | Extract

fun bufRun :: "int \<Rightarrow> bufop list \<Rightarrow> pipeline \<Rightarrow> pipeline \<times> (u32 \<times> u32) list list" where
  "bufRun dl [] s = (s, [])"
| "bufRun dl (Acquire avail # ops) s = bufRun dl ops (fst (snd (pollSensor dl avail s)))"
| "bufRun dl (Extract # ops) s =
     (case extractChunk s of
        (False, s1) \<Rightarrow> bufRun dl ops s1
      | (True, s1) \<Rightarrow>
          (let (s2, chunks) = bufRun dl ops s1
           in (s2, zip (irChunk s1) (redChunk s1) # chunks)))"

text \<open>
  The samples a run offers to the buffer, in production order.
\<close>

fun pushed :: "bufop list \<Rightarrow> (u32 \<times> u32) list" where
  "pushed [] = []"
| "pushed (Acquire avail # ops) = avail @ pushed ops"
| "pushed (Extract # ops) = pushed ops"

text \<open>
  The fill count stays below \<open>BUFFER_SIZE\<close> before and after every operation of the
  run. The count only grows during a poll, so it then stays below inside the poll as well.
\<close>

fun neverFull :: "int \<Rightarrow> bufop list \<Rightarrow> pipeline \<Rightarrow> bool" where
  "neverFull dl [] s = (bufferCount s < BUFFER_SIZE)"
| "neverFull dl (Acquire avail # ops) s =
     (bufferCount s < BUFFER_SIZE \<and> neverFull dl ops (fst (snd (pollSensor dl avail s))))"
| "neverFull dl (Extract # ops) s =
     (bufferCount s < BUFFER_SIZE \<and> neverFull dl ops (snd (extractChunk s)))"

text \<open>
  Concrete inputs: the state after connect and start, a ramp of distinct samples, and a run
  with one successful and one failing extraction.
\<close>

definition startedState :: pipeline where
  "startedState = fst (run 0 [Connect, Command (Some CHR ''S'') 0] init_state)"

definition ramp :: "nat \<Rightarrow> (u32 \<times> u32) list" where
  "ramp n = map (\<lambda>k. (of_nat k, of_nat (k + 1000))) [0..<n]"

definition fifoOps :: "bufop list" where
  "fifoOps = [Acquire (ramp 40), Extract, Acquire [(5, 6)], Extract]"

text \<open>
  Modelled from the spec: the receiving side is not part of \<open>main.cpp\<close>. The spec gives
  the frame layout (byte 0 the sequence number, then for sample \<open>k\<close> of the frame the
  bytes \<open>8k+1 .. 8k+8\<close>: IR as 4 big-endian bytes, then Red as 4 big-endian bytes); the
  decoder reads a frame back by that layout. \<open>be32\<close> assembles a 32-bit value from four
  bytes, most significant first.
\<close>

definition be32 :: "u8 \<Rightarrow> u8 \<Rightarrow> u8 \<Rightarrow> u8 \<Rightarrow> u32" where
  "be32 b0 b1 b2 b3 = push_bit 24 (ucast b0) OR push_bit 16 (ucast b1) OR push_bit 8 (ucast b2) OR ucast b3"

text \<open>
  The frame layout in the spec's words, to compare the packing loops with: a sample is IR
  then Red, each as 4 big-endian bytes; a frame is the sequence byte followed by the bytes
  of its samples in order; batch \<open>q\<close> of a chunk is its samples
  \<open>q * BATCH_SIZE .. (q + 1) * BATCH_SIZE - 1\<close>.
\<close>

definition sampleBytes :: "u32 \<times> u32 \<Rightarrow> u8 list" where
  "sampleBytes x =
     [ucast (drop_bit 24 (fst x)), ucast (drop_bit 16 (fst x)), ucast (drop_bit 8 (fst x)), ucast (fst x),
      ucast (drop_bit 24 (snd x)), ucast (drop_bit 16 (snd x)), ucast (drop_bit 8 (snd x)), ucast (snd x)]"

definition frameOf :: "u8 \<Rightarrow> (u32 \<times> u32) list \<Rightarrow> u8 list" where
  "frameOf sq xs = sq # concat (map sampleBytes xs)"

definition batch :: "u32 list \<Rightarrow> u32 list \<Rightarrow> nat \<Rightarrow> (u32 \<times> u32) list" where
  "batch irC redC q = take (nat BATCH_SIZE) (drop (q * nat BATCH_SIZE) (zip irC redC))"

text \<open>
  The payloads handed to \<open>dataChar.writeValue\<close>, in order.
\<close>

fun notified :: "effect list \<Rightarrow> u8 list list" where
  "notified [] = []"
| "notified (BleNotify pk # es) = pk # notified es"
| "notified (e # es) = notified es"

text \<open>
  Modelled from the spec: sample \<open>k\<close> of a frame, read from bytes \<open>8k+1 .. 8k+8\<close>.
\<close>

definition decodeSample :: "u8 list \<Rightarrow> nat \<Rightarrow> u32 \<times> u32" where
  "decodeSample f k =
     (be32 (f ! (8 * k + 1)) (f ! (8 * k + 2)) (f ! (8 * k + 3)) (f ! (8 * k + 4)),
      be32 (f ! (8 * k + 5)) (f ! (8 * k + 6)) (f ! (8 * k + 7)) (f ! (8 * k + 8)))"

text \<open>
  Modelled from the spec: the \<open>BATCH_SIZE\<close> samples of one frame, in order.
\<close>

definition decodeFrame :: "u8 list \<Rightarrow> (u32 \<times> u32) list" where
  "decodeFrame f = map (decodeSample f) [0..<nat BATCH_SIZE]"

text \<open>
  Modelled from the spec: the samples of a sequence of frames, in order of arrival.
\<close>

definition decodeFrames :: "u8 list list \<Rightarrow> (u32 \<times> u32) list" where
  "decodeFrames fs = concat (map decodeFrame fs)"

text \<open>
  The events inside one connection: the calls of the loop body, between the reset at
  connect and the disconnect handler.
\<close>

fun sessionEvent :: "event \<Rightarrow> bool" where
  "sessionEvent Connect = False"
| "sessionEvent (Disconnect now) = False"
| "sessionEvent e = True"

text \<open>
  The frame groups of a run: for every call of \<open>transmitChunk\<close> that returns true, the
  packets it hands to the BLE stack, in order. Its length is the number of chunks
  transmitted.
\<close>

fun frameGroups :: "int \<Rightarrow> event list \<Rightarrow> pipeline \<Rightarrow> u8 list list list" where
  "frameGroups dl [] s = []"
| "frameGroups dl (Transmit # es) s =
     (case transmitChunk dl s of
        (ok, s1, out) \<Rightarrow> (if ok then [notified out] else []) @ frameGroups dl es s1)"
| "frameGroups dl (e # es) s = frameGroups dl es (fst (exec dl e s))"

text \<open>
  A connection with two sessions: start, 40 samples, a chunk, pause at 10 ms; start again
  at 20 ms, 40 samples, a second chunk, and a transmission attempt that finds too little.
\<close>

definition twoChunkEvents :: "event list" where
  "twoChunkEvents = [Command (Some CHR ''S'') 0, Poll (ramp 40), Transmit, Command (Some CHR ''P'') 10,
                     Command (Some CHR ''S'') 20, Poll (ramp 40), Transmit, Transmit]"

text \<open>
  A session of one sample, paused at 10 ms; \<open>pausedState\<close> is the idle state it leaves.
\<close>

definition restartEvents :: "event list" where
  "restartEvents = [Connect, Command (Some CHR ''S'') 0, Poll [(1, 2)], Command (Some CHR ''P'') 10]"

definition pausedState :: pipeline where
  "pausedState = fst (run 0 restartEvents init_state)"


text \<open>
  Two states that no later operation can tell apart: they agree on everything except the
  chunk arrays, the ring-buffer slots outside the occupied window and, as long as no
  session has started, the start time.
\<close>

definition sim :: "pipeline \<Rightarrow> pipeline \<Rightarrow> bool" where
  "sim s t \<longleftrightarrow>
     buf_inv s \<and> buf_inv t \<and> seqNumber s = seqNumber t \<and> writeIndex s = writeIndex t \<and>
     readIndex s = readIndex t \<and> bufferCount s = bufferCount t \<and>
     totalSamplesDuringStream s = totalSamplesDuringStream t \<and> streaming s = streaming t \<and>
     sensorConfigured s = sensorConfigured t \<and> buffered s = buffered t \<and>
     (streaming s \<or> totalSamplesDuringStream s \<noteq> 0 \<longrightarrow> streamingStartTime s = streamingStartTime t)"


text \<open>
  A streaming state one sample short of a chunk: 31 samples buffered.
\<close>

definition partChunkState :: pipeline where
  "partChunkState = fst (run 0 [Connect, Command (Some CHR ''S'') 0, Poll (ramp 31)] init_state)"

text \<open>
  A state that no reset has touched yet: streaming, one chunk sent, 8 samples buffered, 40
  counted, start time 20, with the sensor marked as shut down.
\<close>

definition staleState :: pipeline where
  "staleState =
     (fst (run 0 [Connect, Command (Some CHR ''S'') 20, Poll (ramp 40), Transmit] init_state))
       \<lparr>sensorConfigured := False\<rparr>"

text \<open>
  The state a whole connection leaves behind: start at 20 ms, 40 samples, one chunk,
  disconnect at 30 ms.
\<close>

definition leftoverState :: pipeline where
  "leftoverState = fst (loop 0 [(Some CHR ''S'', 20, ramp 40)] 30 init_state)"

section \<open>Properties\<close>

subsection \<open>Constants and index arithmetic\<close>

lemma consts_eval:
  "BUFFER_SIZE = 1000" "CHUNK_SIZE = 32" "BATCH_SIZE = 16" "PACKET_SIZE = 129" "RAW_CHUNK_SIZE = 40"
  "CHUNK_SIZE sdiv BATCH_SIZE = 2"
  by (simp_all add: BUFFER_SIZE_def CHUNK_SIZE_def BATCH_SIZE_def PACKET_SIZE_def RAW_CHUNK_SIZE_def
      SAMPLE_RATE_def BUFFER_HEADROOM_SECONDS_def signed_divide_int_def)

lemma smod_nonneg: "0 \<le> a \<Longrightarrow> 0 < b \<Longrightarrow> (a::int) smod b = a mod b"
  by (simp add: signed_modulo_int_def sgn_if)

lemma next_index: "0 \<le> i \<Longrightarrow> 0 \<le> (i + 1) smod BUFFER_SIZE \<and> (i + 1) smod BUFFER_SIZE < BUFFER_SIZE"
  by (simp add: smod_nonneg consts_eval)

subsection \<open>The index ranges are invariant\<close>

lemma pollStep_in_range: "in_range s \<Longrightarrow> in_range (fst (pollStep dl x s))"
  using next_index[of "writeIndex s"] by (auto simp: pollStep_def in_range_def)

lemma pollLoop_in_range: "in_range s \<Longrightarrow> in_range (fst (snd (pollLoop dl avail n s)))"
proof (induction avail arbitrary: n s)
  case Nil
  then show ?case by simp
next
  case (Cons x avail)
  from Cons.IH[OF pollStep_in_range[OF Cons.prems], of "n + 1" dl x] show ?case
    by (simp add: split_beta)
qed

lemma pollSensor_in_range: "in_range s \<Longrightarrow> in_range (fst (snd (pollSensor dl avail s)))"
  by (simp add: pollSensor_def pollLoop_in_range)

text \<open>The extraction loop writes the chunk arrays and the read index, nothing else.\<close>

lemma extractLoop_fields:
  "writeIndex (extractLoop i s) = writeIndex s \<and> bufferCount (extractLoop i s) = bufferCount s \<and>
   seqNumber (extractLoop i s) = seqNumber s \<and> streaming (extractLoop i s) = streaming s \<and>
   sensorConfigured (extractLoop i s) = sensorConfigured s \<and>
   totalSamplesDuringStream (extractLoop i s) = totalSamplesDuringStream s \<and>
   streamingStartTime (extractLoop i s) = streamingStartTime s \<and>
   irRingBuffer (extractLoop i s) = irRingBuffer s \<and> redRingBuffer (extractLoop i s) = redRingBuffer s"
proof (induction i s rule: extractLoop.induct)
  case (1 i s)
  show ?case
  proof (cases "i < CHUNK_SIZE")
    case True
    with 1 show ?thesis by (subst (1 2 3 4 5 6 7 8 9) extractLoop.simps) simp
  next
    case False
    then show ?thesis by (subst (1 2 3 4 5 6 7 8 9) extractLoop.simps) simp
  qed
qed

lemma extractLoop_readIndex_range:
  "0 \<le> readIndex s \<Longrightarrow> readIndex s < BUFFER_SIZE \<Longrightarrow>
   0 \<le> readIndex (extractLoop i s) \<and> readIndex (extractLoop i s) < BUFFER_SIZE"
proof (induction i s rule: extractLoop.induct)
  case (1 i s)
  show ?case
  proof (cases "i < CHUNK_SIZE")
    case True
    with 1 next_index[of "readIndex s"] show ?thesis by (subst (1 2) extractLoop.simps) simp
  next
    case False
    with 1 show ?thesis by (subst (1 2) extractLoop.simps) simp
  qed
qed

lemma extractChunk_in_range: "in_range s \<Longrightarrow> in_range (snd (extractChunk s))"
  using extractLoop_fields[of 0 s] extractLoop_readIndex_range[of s 0]
  by (auto simp: extractChunk_def in_range_def Let_def consts_eval)

lemma transmitChunk_in_range: "in_range s \<Longrightarrow> in_range (fst (snd (transmitChunk dl s)))"
  using extractChunk_in_range[of s]
  by (auto simp: transmitChunk_def in_range_def Let_def split: prod.splits bool.splits)

text \<open>A command changes neither the buffer, nor the counters of chunks and samples.\<close>

lemma handleCommands_buffer:
  "bufferCount (fst (snd (handleCommands dl now w s))) = bufferCount s \<and>
   writeIndex (fst (snd (handleCommands dl now w s))) = writeIndex s \<and>
   readIndex (fst (snd (handleCommands dl now w s))) = readIndex s \<and>
   irRingBuffer (fst (snd (handleCommands dl now w s))) = irRingBuffer s \<and>
   redRingBuffer (fst (snd (handleCommands dl now w s))) = redRingBuffer s \<and>
   irChunk (fst (snd (handleCommands dl now w s))) = irChunk s \<and>
   redChunk (fst (snd (handleCommands dl now w s))) = redChunk s \<and>
   seqNumber (fst (snd (handleCommands dl now w s))) = seqNumber s \<and>
   totalSamplesDuringStream (fst (snd (handleCommands dl now w s))) = totalSamplesDuringStream s"
  by (simp add: handleCommands_def configureSensor_def Let_def split: option.splits)

lemma handleCommands_in_range: "in_range s \<Longrightarrow> in_range (fst (snd (handleCommands dl now w s)))"
  by (simp add: in_range_def handleCommands_buffer)

lemma resetStreamingState_in_range: "in_range (fst (resetStreamingState dl s))"
  by (simp add: resetStreamingState_def in_range_def consts_eval)

lemma handleDisconnect_in_range: "in_range (fst (handleDisconnect dl now s))"
  by (simp add: handleDisconnect_def resetStreamingState_def shutdownSensor_def in_range_def consts_eval)

lemma exec_in_range: "in_range s \<Longrightarrow> in_range (fst (exec dl e s))"
  by (cases e) (simp_all add: resetStreamingState_in_range handleCommands_in_range
      pollSensor_in_range transmitChunk_in_range handleDisconnect_in_range)

lemma run_in_range: "in_range s \<Longrightarrow> in_range (fst (run dl es s))"
proof (induction es arbitrary: s)
  case Nil
  then show ?case by simp
next
  case (Cons e es)
  from Cons.IH[OF exec_in_range[OF Cons.prems], of dl e] show ?case
    by (simp add: split_beta)
qed

lemma init_in_range: "in_range init_state"
  by (simp add: in_range_def init_state_def consts_eval)

lemma pollStep_full:
  "BUFFER_SIZE \<le> bufferCount s \<Longrightarrow>
   pollStep dl x s = (s\<lparr>totalSamplesDuringStream := totalSamplesDuringStream s + 1\<rparr>,
                      debugPrint dl DEBUG_INFO ''BUFFER OVERFLOW'')"
  by (simp add: pollStep_def)

lemma pollStep_count:
  "bufferCount s \<le> BUFFER_SIZE \<Longrightarrow>
   bufferCount (fst (pollStep dl x s)) = min BUFFER_SIZE (bufferCount s + 1)"
  by (auto simp: pollStep_def)

lemma pollLoop_count:
  "bufferCount s \<le> BUFFER_SIZE \<Longrightarrow>
   bufferCount (fst (snd (pollLoop dl avail n s))) = min BUFFER_SIZE (bufferCount s + int (length avail))"
proof (induction avail arbitrary: n s)
  case Nil
  then show ?case by simp
next
  case (Cons x avail)
  have le: "bufferCount (fst (pollStep dl x s)) \<le> BUFFER_SIZE"
    using pollStep_count[OF Cons.prems, of dl x] by simp
  show ?case
    using Cons.IH[OF le, of "n + 1"] pollStep_count[OF Cons.prems, of dl x]
    by (simp add: split_beta)
qed

lemma fillEvents_full: "bufferCount (fst (run dl fillEvents init_state)) = BUFFER_SIZE"
proof -
  let ?s = "fst (snd (handleCommands dl 0 (Some CHR ''S'') (fst (resetStreamingState dl init_state))))"
  have st: "streaming ?s" and c0: "bufferCount ?s = 0"
    by (simp_all add: handleCommands_def resetStreamingState_def configureSensor_def Let_def split_beta)
  have "bufferCount (fst (snd (pollSensor dl (replicate 1000 (1, 2)) ?s))) = BUFFER_SIZE"
    using pollLoop_count[of ?s dl "replicate 1000 (1, 2)" 0] st c0
    by (simp add: pollSensor_def consts_eval)
  then show ?thesis
    by (simp add: fillEvents_def split_beta)
qed

subsection \<open>Claims about the ring buffer\<close>

text \<open>
  Claim C2. If fewer than \<open>CHUNK_SIZE\<close> samples are buffered, \<open>extractChunk\<close> fails and
  returns the very state it was given: read index, write index, count, ring buffers and
  chunk arrays are all untouched. \<open>transmitChunk\<close> then sends nothing and leaves the
  state, the sequence number included, as it was.
\<close>

theorem extractChunk_all_or_nothing:
  "bufferCount s < CHUNK_SIZE \<Longrightarrow>
   extractChunk s = (False, s) \<and> transmitChunk dl s = (False, s, [])"
  by (simp add: extractChunk_def transmitChunk_def)

text \<open>
  Claim C3. In every state the firmware can reach from power-up, by any sequence of
  connects, commands, polls, transmissions and disconnects, the fill count is in
  \<open>[0, BUFFER_SIZE]\<close> and both indices are in \<open>[0, BUFFER_SIZE)\<close>. When the count equals
  \<open>BUFFER_SIZE\<close>, one more iteration of the acquisition loop drops its sample: both ring
  buffers, both indices and the count stay as they were.
\<close>

theorem buffer_bounds_and_overflow_drop:
  "0 \<le> bufferCount (fst (run dl es init_state)) \<and>
   bufferCount (fst (run dl es init_state)) \<le> BUFFER_SIZE \<and>
   0 \<le> writeIndex (fst (run dl es init_state)) \<and>
   writeIndex (fst (run dl es init_state)) < BUFFER_SIZE \<and>
   0 \<le> readIndex (fst (run dl es init_state)) \<and>
   readIndex (fst (run dl es init_state)) < BUFFER_SIZE \<and>
   (bufferCount (fst (run dl es init_state)) = BUFFER_SIZE \<longrightarrow>
      irRingBuffer (fst (pollStep dl x (fst (run dl es init_state)))) = irRingBuffer (fst (run dl es init_state)) \<and>
      redRingBuffer (fst (pollStep dl x (fst (run dl es init_state)))) = redRingBuffer (fst (run dl es init_state)) \<and>
      writeIndex (fst (pollStep dl x (fst (run dl es init_state)))) = writeIndex (fst (run dl es init_state)) \<and>
      readIndex (fst (pollStep dl x (fst (run dl es init_state)))) = readIndex (fst (run dl es init_state)) \<and>
      bufferCount (fst (pollStep dl x (fst (run dl es init_state)))) = bufferCount (fst (run dl es init_state)))"
  using run_in_range[OF init_in_range, of dl es]
  by (simp add: in_range_def pollStep_full)

theorem buffer_bounds_and_overflow_drop_witness:
  "bufferCount (fst (run 0 fillEvents init_state)) = BUFFER_SIZE \<and>
   irRingBuffer (fst (pollStep 0 (7, 9) (fst (run 0 fillEvents init_state)))) = irRingBuffer (fst (run 0 fillEvents init_state)) \<and>
   bufferCount (fst (pollStep 0 (7, 9) (fst (run 0 fillEvents init_state)))) = 1000"
  using buffer_bounds_and_overflow_drop[of 0 fillEvents "(7, 9)"] fillEvents_full[of 0]
  by (simp add: consts_eval)

lemma slot_distinct:
  assumes "0 \<le> r" "k < c" "0 \<le> k" "c < BUFFER_SIZE"
  shows "nat ((r + k) mod BUFFER_SIZE) \<noteq> nat ((r + c) mod BUFFER_SIZE)"
proof
  assume "nat ((r + k) mod BUFFER_SIZE) = nat ((r + c) mod BUFFER_SIZE)"
  then have "(r + c) mod BUFFER_SIZE = (r + k) mod BUFFER_SIZE"
    by (simp add: consts_eval)
  then have "BUFFER_SIZE dvd (r + c) - (r + k)"
    by (simp add: mod_eq_dvd_iff)
  then have "BUFFER_SIZE dvd c - k" by simp
  moreover have "0 < c - k" "c - k < BUFFER_SIZE" using assms by auto
  ultimately show False
    using zdvd_not_zless by blast
qed

lemma pollStep_buffered:
  assumes inv: "buf_inv s" and room: "bufferCount s < BUFFER_SIZE"
  shows "buffered (fst (pollStep dl x s)) = buffered s @ [x]"
    and "buf_inv (fst (pollStep dl x s))"
proof -
  let ?r = "readIndex s" and ?c = "bufferCount s" and ?w = "writeIndex s"
  from inv have rng: "0 \<le> ?c" "0 \<le> ?r" "?r < BUFFER_SIZE" "0 \<le> ?w" "?w < BUFFER_SIZE"
    and w: "?w = (?r + ?c) mod BUFFER_SIZE"
    and len: "length (irRingBuffer s) = nat BUFFER_SIZE" "length (redRingBuffer s) = nat BUFFER_SIZE"
    by (simp_all add: buf_inv_def in_range_def arrays_ok_def)
  have upt: "[0..<nat (?c + 1)] = [0..<nat ?c] @ [nat ?c]"
    using rng by (simp add: nat_add_distrib)
  have wlt: "nat ?w < nat BUFFER_SIZE" using rng by simp
  have old: "nat ?w \<noteq> nat ((?r + int k) mod BUFFER_SIZE)" if "k < nat ?c" for k
  proof -
    from that have "int k < ?c" by linarith
    from slot_distinct[OF rng(2) this _ room] show ?thesis
      by (simp add: w)
  qed
  show "buffered (fst (pollStep dl x s)) = buffered s @ [x]"
    using room rng len wlt old
    by (cases x) (simp add: pollStep_def buffered_def upt w[symmetric])
  have "(?w + 1) smod BUFFER_SIZE = (?r + (?c + 1)) mod BUFFER_SIZE"
    using rng by (simp add: smod_nonneg consts_eval w mod_simps add.assoc)
  then show "buf_inv (fst (pollStep dl x s))"
    using inv room pollStep_in_range[of s dl x]
    by (simp add: buf_inv_def arrays_ok_def pollStep_def)
qed

lemma pollLoop_buffered:
  "buf_inv s \<Longrightarrow> bufferCount s + int (length avail) \<le> BUFFER_SIZE \<Longrightarrow>
   buffered (fst (snd (pollLoop dl avail n s))) = buffered s @ avail \<and>
   buf_inv (fst (snd (pollLoop dl avail n s)))"
proof (induction avail arbitrary: n s)
  case Nil
  then show ?case by simp
next
  case (Cons x avail)
  from Cons.prems have room: "bufferCount s < BUFFER_SIZE" by simp
  note step = pollStep_buffered[OF Cons.prems(1) room, of dl x]
  have cnt: "bufferCount (fst (pollStep dl x s)) = bufferCount s + 1"
    using room by (simp add: pollStep_def)
  have "bufferCount (fst (pollStep dl x s)) + int (length avail) \<le> BUFFER_SIZE"
    using Cons.prems(2) cnt by simp
  from Cons.IH[OF step(2) this, of "n + 1"] step(1) show ?case
    by (simp add: split_beta)
qed

lemma extractLoop_chunk:
  "0 \<le> i \<Longrightarrow> i \<le> CHUNK_SIZE \<Longrightarrow> 0 \<le> readIndex s \<Longrightarrow> readIndex s < BUFFER_SIZE \<Longrightarrow>
   length (irChunk s) = nat CHUNK_SIZE \<Longrightarrow> length (redChunk s) = nat CHUNK_SIZE \<Longrightarrow>
   readIndex (extractLoop i s) = (readIndex s + (CHUNK_SIZE - i)) mod BUFFER_SIZE \<and>
   irChunk (extractLoop i s) =
     take (nat i) (irChunk s) @
     map (\<lambda>k. irRingBuffer s ! nat ((readIndex s + int k) mod BUFFER_SIZE)) [0..<nat (CHUNK_SIZE - i)] \<and>
   redChunk (extractLoop i s) =
     take (nat i) (redChunk s) @
     map (\<lambda>k. redRingBuffer s ! nat ((readIndex s + int k) mod BUFFER_SIZE)) [0..<nat (CHUNK_SIZE - i)]"
proof (induction i s rule: extractLoop.induct)
  case (1 i s)
  show ?case
  proof (cases "i < CHUNK_SIZE")
    case False
    with "1.prems" have "i = CHUNK_SIZE" by simp
    with "1.prems" show ?thesis
      by (subst (1 2 3) extractLoop.simps) (simp add: smod_nonneg consts_eval)
  next
    case True
    let ?s1 = "s\<lparr>irChunk := (irChunk s)[nat i := irRingBuffer s ! nat (readIndex s)],
                  redChunk := (redChunk s)[nat i := redRingBuffer s ! nat (readIndex s)],
                  readIndex := (readIndex s + 1) smod BUFFER_SIZE\<rparr>"
    have r1: "readIndex ?s1 = (readIndex s + 1) mod BUFFER_SIZE"
      using "1.prems" by (simp add: smod_nonneg consts_eval)
    have ih: "readIndex (extractLoop (i + 1) ?s1) = (readIndex ?s1 + (CHUNK_SIZE - (i + 1))) mod BUFFER_SIZE \<and>
       irChunk (extractLoop (i + 1) ?s1) =
         take (nat (i + 1)) (irChunk ?s1) @
         map (\<lambda>k. irRingBuffer ?s1 ! nat ((readIndex ?s1 + int k) mod BUFFER_SIZE)) [0..<nat (CHUNK_SIZE - (i + 1))] \<and>
       redChunk (extractLoop (i + 1) ?s1) =
         take (nat (i + 1)) (redChunk ?s1) @
         map (\<lambda>k. redRingBuffer ?s1 ! nat ((readIndex ?s1 + int k) mod BUFFER_SIZE)) [0..<nat (CHUNK_SIZE - (i + 1))]"
      using "1.IH"[OF True] True "1.prems" next_index[of "readIndex s"] by simp
    have unf: "extractLoop i s = extractLoop (i + 1) ?s1"
      using True by (subst extractLoop.simps) simp
    have n: "nat (CHUNK_SIZE - i) = Suc (nat (CHUNK_SIZE - (i + 1)))" and ni: "nat (i + 1) = Suc (nat i)"
      and ilt: "nat i < nat CHUNK_SIZE"
      using True "1.prems" by simp_all
    have shift: "((readIndex s + 1) mod BUFFER_SIZE + int k) mod BUFFER_SIZE =
                 (readIndex s + int (Suc k)) mod BUFFER_SIZE" for k
      by (simp add: mod_simps add.commute add.left_commute)
    have r0: "readIndex s mod BUFFER_SIZE = readIndex s"
      using "1.prems" by simp
    have rfin: "((readIndex s + 1) mod BUFFER_SIZE + (CHUNK_SIZE - (i + 1))) mod BUFFER_SIZE =
                (readIndex s + (CHUNK_SIZE - i)) mod BUFFER_SIZE"
      by (simp add: mod_simps)
    show ?thesis
      unfolding unf using ih "1.prems" ilt
      apply (simp only: r1 n ni shift)
      apply (simp add: take_Suc_conv_app_nth map_upt_Suc r0 rfin del: upt_Suc)
      done
  qed
qed

lemma neverFull_start: "neverFull dl ops s \<Longrightarrow> bufferCount s < BUFFER_SIZE"
  by (cases ops rule: pushed.cases) simp_all

lemma zip_map_same: "zip (map f xs) (map g xs) = map (\<lambda>x. (f x, g x)) xs"
  by (induction xs) simp_all

lemma extractChunk_buffered:
  assumes inv: "buf_inv s" and enough: "CHUNK_SIZE \<le> bufferCount s"
  shows "fst (extractChunk s)"
    and "zip (irChunk (snd (extractChunk s))) (redChunk (snd (extractChunk s))) = take (nat CHUNK_SIZE) (buffered s)"
    and "buffered (snd (extractChunk s)) = drop (nat CHUNK_SIZE) (buffered s)"
    and "buf_inv (snd (extractChunk s))"
    and "bufferCount (snd (extractChunk s)) = bufferCount s - CHUNK_SIZE"
proof -
  let ?r = "readIndex s" and ?c = "bufferCount s" and ?e = "extractLoop 0 s"
  from inv have rng: "0 \<le> ?r" "?r < BUFFER_SIZE" "?c \<le> BUFFER_SIZE"
    and w: "writeIndex s = (?r + ?c) mod BUFFER_SIZE"
    and len: "length (irChunk s) = nat CHUNK_SIZE" "length (redChunk s) = nat CHUNK_SIZE"
             "length (irRingBuffer s) = nat BUFFER_SIZE" "length (redRingBuffer s) = nat BUFFER_SIZE"
    by (simp_all add: buf_inv_def in_range_def arrays_ok_def)
  have ex: "extractChunk s = (True, ?e\<lparr>bufferCount := bufferCount ?e - CHUNK_SIZE\<rparr>)"
    using enough by (simp add: extractChunk_def Let_def)
  note fl = extractLoop_fields[of 0 s]
  have ch: "readIndex ?e = (?r + CHUNK_SIZE) mod BUFFER_SIZE"
     "irChunk ?e = map (\<lambda>k. irRingBuffer s ! nat ((?r + int k) mod BUFFER_SIZE)) [0..<nat CHUNK_SIZE]"
     "redChunk ?e = map (\<lambda>k. redRingBuffer s ! nat ((?r + int k) mod BUFFER_SIZE)) [0..<nat CHUNK_SIZE]"
    using extractLoop_chunk[of 0 s] rng len by (simp_all add: consts_eval)
  show "fst (extractChunk s)" by (simp add: ex)
  show "bufferCount (snd (extractChunk s)) = bufferCount s - CHUNK_SIZE"
    by (simp add: ex fl)
  show "zip (irChunk (snd (extractChunk s))) (redChunk (snd (extractChunk s))) = take (nat CHUNK_SIZE) (buffered s)"
    using enough by (simp add: ex ch zip_map_same buffered_def take_map min_def consts_eval)
  have sh: "((?r + CHUNK_SIZE) mod BUFFER_SIZE + int k) mod BUFFER_SIZE =
            (?r + int (k + nat CHUNK_SIZE)) mod BUFFER_SIZE" for k
    by (simp add: mod_simps consts_eval add.commute add.left_commute)
  have upt: "[nat CHUNK_SIZE..<nat ?c] = map (\<lambda>k. k + nat CHUNK_SIZE) [0..<nat (?c - CHUNK_SIZE)]"
    using enough by (simp add: map_add_upt consts_eval nat_diff_distrib)
  show "buffered (snd (extractChunk s)) = drop (nat CHUNK_SIZE) (buffered s)"
    by (simp add: ex fl ch buffered_def drop_map sh upt o_def)
  have "(?r + CHUNK_SIZE) mod BUFFER_SIZE + (?c - CHUNK_SIZE) = (?r + CHUNK_SIZE) mod BUFFER_SIZE + ?c - CHUNK_SIZE"
    by simp
  have w2: "writeIndex s = ((?r + CHUNK_SIZE) mod BUFFER_SIZE + (?c - CHUNK_SIZE)) mod BUFFER_SIZE"
    by (simp add: w mod_simps)
  show "buf_inv (snd (extractChunk s))"
    using inv extractChunk_in_range[of s] enough w2
    by (simp add: buf_inv_def ex fl ch arrays_ok_def len)
qed

lemma pollSensor_buffered:
  assumes "buf_inv s" "streaming s" "bufferCount (fst (snd (pollSensor dl avail s))) < BUFFER_SIZE"
  shows "buffered (fst (snd (pollSensor dl avail s))) = buffered s @ avail"
    and "buf_inv (fst (snd (pollSensor dl avail s)))"
proof -
  from assms(1) have le: "bufferCount s \<le> BUFFER_SIZE" by (simp add: buf_inv_def in_range_def)
  from assms(2,3) pollLoop_count[OF le, of dl avail 0]
  have "bufferCount s + int (length avail) \<le> BUFFER_SIZE"
    by (simp add: pollSensor_def min_def split: if_splits)
  from pollLoop_buffered[OF assms(1) this, of dl 0] assms(2)
  show "buffered (fst (snd (pollSensor dl avail s))) = buffered s @ avail"
    and "buf_inv (fst (snd (pollSensor dl avail s)))"
    by (simp_all add: pollSensor_def)
qed

lemma pollLoop_streaming: "streaming (fst (snd (pollLoop dl avail n s))) = streaming s"
proof (induction avail arbitrary: n s)
  case Nil
  show ?case by simp
next
  case (Cons x avail)
  have "streaming (fst (pollStep dl x s)) = streaming s"
    by (simp add: pollStep_def split_beta)
  with Cons[of "n + 1" "fst (pollStep dl x s)"] show ?case by (simp add: split_beta)
qed

lemma pollSensor_streaming: "streaming (fst (snd (pollSensor dl avail s))) = streaming s"
  by (simp add: pollSensor_def pollLoop_streaming)

lemma extractChunk_streaming: "streaming (snd (extractChunk s)) = streaming s"
  by (simp add: extractChunk_def Let_def extractLoop_fields)

lemma extractChunk_fail: "\<not> fst (extractChunk s) \<Longrightarrow> extractChunk s = (False, s)"
  by (simp add: extractChunk_def Let_def split: if_splits)

lemma extractChunk_ok_iff: "fst (extractChunk s) \<longleftrightarrow> CHUNK_SIZE \<le> bufferCount s"
  by (simp add: extractChunk_def Let_def)

lemma bufRun_fifo:
  "buf_inv s \<Longrightarrow> streaming s \<Longrightarrow> neverFull dl ops s \<Longrightarrow>
   concat (snd (bufRun dl ops s)) @ buffered (fst (bufRun dl ops s)) = buffered s @ pushed ops \<and>
   (\<forall>c \<in> set (snd (bufRun dl ops s)). length c = nat CHUNK_SIZE) \<and>
   buf_inv (fst (bufRun dl ops s))"
proof (induction ops arbitrary: s rule: pushed.induct)
  case 1
  then show ?case by simp
next
  case (2 avail ops)
  let ?s1 = "fst (snd (pollSensor dl avail s))"
  from "2.prems" have nf: "neverFull dl ops ?s1" by simp
  note p = pollSensor_buffered[OF "2.prems"(1,2) neverFull_start[OF nf]]
  from "2.IH"[OF p(2) _ nf] "2.prems"(2) p(1) show ?case
    by (simp add: pollSensor_streaming)
next
  case (3 ops)
  show ?case
  proof (cases "fst (extractChunk s)")
    case False
    from extractChunk_fail[OF False] "3.IH"[of s] "3.prems" show ?thesis by simp
  next
    case True
    then have en: "CHUNK_SIZE \<le> bufferCount s" by (simp add: extractChunk_ok_iff)
    from True obtain s1 where eq: "extractChunk s = (True, s1)"
      by (cases "extractChunk s") simp
    from extractChunk_buffered[OF "3.prems"(1) en] eq
    have e: "zip (irChunk s1) (redChunk s1) = take (nat CHUNK_SIZE) (buffered s)"
      "buffered s1 = drop (nat CHUNK_SIZE) (buffered s)" "buf_inv s1"
      by simp_all
    have st: "streaming s1" using "3.prems"(2) extractChunk_streaming[of s] eq by simp
    from "3.prems" eq have nf: "neverFull dl ops s1" by simp
    have len: "length (take (nat CHUNK_SIZE) (buffered s)) = nat CHUNK_SIZE"
      using en "3.prems"(1) by (simp add: buffered_def buf_inv_def in_range_def)
    from "3.IH"[OF e(3) st nf] have ih:
      "concat (snd (bufRun dl ops s1)) @ buffered (fst (bufRun dl ops s1)) = drop (nat CHUNK_SIZE) (buffered s) @ pushed ops"
      "\<forall>c \<in> set (snd (bufRun dl ops s1)). length c = nat CHUNK_SIZE"
      "buf_inv (fst (bufRun dl ops s1))"
      by (simp_all add: e(2))
    have "take (nat CHUNK_SIZE) (buffered s) @ drop (nat CHUNK_SIZE) (buffered s) @ pushed ops = buffered s @ pushed ops"
      by (simp flip: append_assoc)
    with ih len show ?thesis
      by (simp add: eq split_beta e(1))
  qed
qed

text \<open>
  Claim C1. Take any interleaving of polls and extractions, from any streaming state that
  satisfies the ring-buffer invariant, in which the fill count never reaches
  \<open>BUFFER_SIZE\<close>. The chunks extracted so far, followed by what is still buffered, are
  exactly the samples buffered at the start followed by the pushed samples, in production
  order. Every chunk has \<open>CHUNK_SIZE\<close> samples, and a further extraction, when at least
  \<open>CHUNK_SIZE\<close> samples are buffered, succeeds and returns the next \<open>CHUNK_SIZE\<close>
  samples of that sequence.
\<close>

theorem fifo_order:
  assumes "buf_inv s" "streaming s" "neverFull dl ops s"
  shows "concat (snd (bufRun dl ops s)) @ buffered (fst (bufRun dl ops s)) = buffered s @ pushed ops \<and>
   (\<forall>c \<in> set (snd (bufRun dl ops s)). length c = nat CHUNK_SIZE) \<and>
   (CHUNK_SIZE \<le> bufferCount (fst (bufRun dl ops s)) \<longrightarrow>
      fst (extractChunk (fst (bufRun dl ops s))) \<and>
      zip (irChunk (snd (extractChunk (fst (bufRun dl ops s))))) (redChunk (snd (extractChunk (fst (bufRun dl ops s))))) =
        take (nat CHUNK_SIZE) (drop (length (concat (snd (bufRun dl ops s)))) (buffered s @ pushed ops)))"
proof -
  note r = bufRun_fifo[OF assms]
  from r have b: "buffered (fst (bufRun dl ops s)) = drop (length (concat (snd (bufRun dl ops s)))) (buffered s @ pushed ops)"
    by (metis append_eq_conv_conj)
  from r have inv: "buf_inv (fst (bufRun dl ops s))" by simp
  show ?thesis
    using r extractChunk_buffered(1,2)[OF inv] b by simp
qed

lemma pollStep_buf_inv: "buf_inv s \<Longrightarrow> buf_inv (fst (pollStep dl x s))"
proof (cases "bufferCount s < BUFFER_SIZE")
  case True
  assume "buf_inv s"
  from pollStep_buffered(2)[OF this True] show ?thesis .
next
  case False
  assume "buf_inv s"
  with False show ?thesis
    by (simp add: pollStep_full buf_inv_def in_range_def arrays_ok_def)
qed

lemma pollLoop_buf_inv: "buf_inv s \<Longrightarrow> buf_inv (fst (snd (pollLoop dl avail n s)))"
proof (induction avail arbitrary: n s)
  case Nil
  then show ?case by simp
next
  case (Cons x avail)
  from Cons.IH[OF pollStep_buf_inv[OF Cons.prems], of "n + 1" dl x] show ?case
    by (simp add: split_beta)
qed

lemma pollSensor_buf_inv: "buf_inv s \<Longrightarrow> buf_inv (fst (snd (pollSensor dl avail s)))"
  by (simp add: pollSensor_def pollLoop_buf_inv)

lemma extractChunk_buf_inv: "buf_inv s \<Longrightarrow> buf_inv (snd (extractChunk s))"
  using extractChunk_buffered(4)[of s] extractChunk_fail[of s]
  by (cases "CHUNK_SIZE \<le> bufferCount s") (simp_all add: extractChunk_ok_iff)

lemma buf_inv_seqNumber: "buf_inv (s\<lparr>seqNumber := q\<rparr>) = buf_inv s"
  by (simp add: buf_inv_def in_range_def arrays_ok_def)

lemma transmitChunk_buf_inv: "buf_inv s \<Longrightarrow> buf_inv (fst (snd (transmitChunk dl s)))"
  using extractChunk_buf_inv[of s]
  by (auto simp: transmitChunk_def Let_def buf_inv_seqNumber split: prod.splits bool.splits)

lemma handleCommands_buf_inv: "buf_inv s \<Longrightarrow> buf_inv (fst (snd (handleCommands dl now w s)))"
  by (simp add: buf_inv_def in_range_def arrays_ok_def handleCommands_buffer)

lemma resetStreamingState_buf_inv: "arrays_ok s \<Longrightarrow> buf_inv (fst (resetStreamingState dl s))"
  by (simp add: resetStreamingState_def buf_inv_def in_range_def arrays_ok_def consts_eval)

lemma handleDisconnect_buf_inv: "arrays_ok s \<Longrightarrow> buf_inv (fst (handleDisconnect dl now s))"
  by (simp add: handleDisconnect_def resetStreamingState_def shutdownSensor_def buf_inv_def
      in_range_def arrays_ok_def consts_eval)

lemma exec_buf_inv:
  assumes "buf_inv s"
  shows "buf_inv (fst (exec dl e s))"
proof -
  from assms have "arrays_ok s" by (simp add: buf_inv_def)
  with assms show ?thesis
    by (cases e) (simp_all add: resetStreamingState_buf_inv handleCommands_buf_inv
        pollSensor_buf_inv transmitChunk_buf_inv handleDisconnect_buf_inv)
qed

lemma run_buf_inv: "buf_inv s \<Longrightarrow> buf_inv (fst (run dl es s))"
proof (induction es arbitrary: s)
  case Nil
  then show ?case by simp
next
  case (Cons e es)
  from Cons.IH[OF exec_buf_inv[OF Cons.prems], of dl e] show ?case
    by (simp add: split_beta)
qed

lemma init_buf_inv: "buf_inv init_state"
  by (simp add: buf_inv_def in_range_def arrays_ok_def init_state_def consts_eval)

lemma startedState_eq: "startedState = init_state\<lparr>streamingStartTime := 0, streaming := True, sensorConfigured := True\<rparr>"
  by (simp add: startedState_def init_state_def resetStreamingState_def handleCommands_def
      configureSensor_def Let_def)

lemma pollSensor_count:
  "streaming s \<Longrightarrow> bufferCount s \<le> BUFFER_SIZE \<Longrightarrow>
   bufferCount (fst (snd (pollSensor dl avail s))) = min BUFFER_SIZE (bufferCount s + int (length avail))"
  by (simp add: pollSensor_def pollLoop_count)

lemma extractChunk_count:
  "bufferCount (snd (extractChunk s)) =
     (if bufferCount s < CHUNK_SIZE then bufferCount s else bufferCount s - CHUNK_SIZE)"
  by (simp add: extractChunk_def Let_def extractLoop_fields)

lemma startedState_facts: "buf_inv startedState" "streaming startedState" "bufferCount startedState = 0"
    "buffered startedState = []"
proof -
  show "buf_inv startedState" unfolding startedState_def by (rule run_buf_inv[OF init_buf_inv])
  show "streaming startedState" "bufferCount startedState = 0"
    by (simp_all add: startedState_eq init_state_def)
  then show "buffered startedState = []" by (simp add: buffered_def)
qed

lemma neverFull_fifoOps: "neverFull 0 fifoOps startedState"
  by (simp add: fifoOps_def pollSensor_count extractChunk_count pollSensor_streaming
      extractChunk_streaming startedState_facts consts_eval ramp_def)

theorem fifo_order_witness:
  "buf_inv startedState \<and> streaming startedState \<and> neverFull 0 fifoOps startedState \<and>
   length (snd (bufRun 0 fifoOps startedState)) = 1 \<and>
   concat (snd (bufRun 0 fifoOps startedState)) @ buffered (fst (bufRun 0 fifoOps startedState)) =
     ramp 40 @ [(5, 6)]"
proof -
  have n: "length (snd (bufRun 0 fifoOps startedState)) = 1"
    by (simp add: fifoOps_def  pollSensor_count extractChunk_count pollSensor_streaming
      extractChunk_streaming startedState_facts consts_eval ramp_def split_beta
      extractChunk_ok_iff split: prod.splits bool.splits)
  from fifo_order[OF startedState_facts(1,2) neverFull_fifoOps] startedState_facts n neverFull_fifoOps
  show ?thesis
    by (simp add: fifoOps_def)
qed

subsection \<open>Packing and the frame layout\<close>

lemma be32_bytes:
  "be32 (ucast (drop_bit 24 w)) (ucast (drop_bit 16 w)) (ucast (drop_bit 8 w)) (ucast w) = (w :: u32)"
  unfolding be32_def
proof (rule bit_word_eqI)
  fix n
  assume "n < LENGTH(32)"
  then consider "n < 8" | "8 \<le> n" "n < 16" | "16 \<le> n" "n < 24" | "24 \<le> n" "n < 32"
    by fastforce
  then show "bit (push_bit 24 (ucast (ucast (drop_bit 24 w) :: u8)) OR
                  push_bit 16 (ucast (ucast (drop_bit 16 w) :: u8)) OR
                  push_bit 8 (ucast (ucast (drop_bit 8 w) :: u8)) OR ucast (ucast w :: u8) :: u32) n = bit w n"
    by cases (auto simp: bit_simps)
qed

lemma narrow_mask: "(ucast (w AND 0xFF :: u32) :: u8) = ucast w"
proof -
  have m: "w AND 0xFF = take_bit 8 w"
    by (simp add: take_bit_eq_mask mask_eq_exp_minus_1)
  show ?thesis
    unfolding m by (rule bit_word_eqI) (auto simp: bit_simps)
qed

lemma update8:
  assumes "n + 8 \<le> length xs"
  shows "xs[n := a, n + 1 := b, n + 2 := c, n + 3 := d, n + 4 := e, n + 5 := f, n + 6 := g, n + 7 := h] =
         take n xs @ [a, b, c, d, e, f, g, h] @ drop (n + 8) xs"
proof (rule nth_equalityI)
  show "length (xs[n := a, n + 1 := b, n + 2 := c, n + 3 := d, n + 4 := e, n + 5 := f, n + 6 := g, n + 7 := h]) =
        length (take n xs @ [a, b, c, d, e, f, g, h] @ drop (n + 8) xs)"
    using assms by simp
next
  fix i
  assume "i < length (xs[n := a, n + 1 := b, n + 2 := c, n + 3 := d, n + 4 := e, n + 5 := f, n + 6 := g, n + 7 := h])"
  then have i: "i < length xs" by simp
  consider "i < n" | "i = n" | "i = n + 1" | "i = n + 2" | "i = n + 3" | "i = n + 4" | "i = n + 5"
    | "i = n + 6" | "i = n + 7" | "n + 8 \<le> i"
    by linarith
  then show "xs[n := a, n + 1 := b, n + 2 := c, n + 3 := d, n + 4 := e, n + 5 := f, n + 6 := g, n + 7 := h] ! i =
        (take n xs @ [a, b, c, d, e, f, g, h] @ drop (n + 8) xs) ! i"
    using i assms
    by cases (simp_all add: nth_append nth_list_update)
qed

lemma packSample_eq:
  assumes "0 \<le> idx" "nat idx + 8 \<le> length packet"
  shows "packSample packet idx ir red =
         (take (nat idx) packet @ sampleBytes (ir, red) @ drop (nat idx + 8) packet, idx + 8)"
proof -
  have n: "nat (idx + 1) = nat idx + 1" "nat (idx + 2) = nat idx + 2" "nat (idx + 3) = nat idx + 3"
    "nat (idx + 4) = nat idx + 4" "nat (idx + 5) = nat idx + 5" "nat (idx + 6) = nat idx + 6"
    "nat (idx + 7) = nat idx + 7"
    using assms(1) by simp_all
  show ?thesis
    unfolding packSample_def n narrow_mask
    by (simp only: update8[OF assms(2)] sampleBytes_def fst_conv snd_conv)
qed

lemma packBatch_eq:
  "0 \<le> sI \<Longrightarrow> sI \<le> BATCH_SIZE \<Longrightarrow> idx = 1 + 8 * sI \<Longrightarrow> length packet = nat PACKET_SIZE \<Longrightarrow>
   packBatch irC redC p sI idx packet =
     take (nat idx) packet @
     concat (map (\<lambda>k. sampleBytes (irC ! nat (p * BATCH_SIZE + int k), redC ! nat (p * BATCH_SIZE + int k)))
                 [nat sI..<nat BATCH_SIZE])"
proof (induction irC redC p sI idx packet rule: packBatch.induct)
  case (1 irC redC p sI idx packet)
  show ?case
  proof (cases "sI < BATCH_SIZE")
    case False
    with "1.prems" have "sI = BATCH_SIZE" by simp
    with "1.prems" show ?thesis
      by (subst packBatch.simps) (simp add: consts_eval)
  next
    case True
    let ?ir = "irC ! nat (p * BATCH_SIZE + sI)" and ?red = "redC ! nat (p * BATCH_SIZE + sI)"
    let ?p1 = "take (nat idx) packet @ sampleBytes (?ir, ?red) @ drop (nat idx + 8) packet"
    have fits: "0 \<le> idx" "nat idx + 8 \<le> length packet"
      using True "1.prems" by (simp_all add: consts_eval)
    have ps: "packSample packet idx ?ir ?red = (?p1, idx + 8)"
      by (rule packSample_eq[OF fits])
    have len1: "length ?p1 = nat PACKET_SIZE"
      using fits "1.prems" by (simp add: sampleBytes_def)
    have ih: "packBatch irC redC p (sI + 1) (idx + 8) ?p1 =
       take (nat (idx + 8)) ?p1 @
       concat (map (\<lambda>k. sampleBytes (irC ! nat (p * BATCH_SIZE + int k), redC ! nat (p * BATCH_SIZE + int k)))
                   [nat (sI + 1)..<nat BATCH_SIZE])"
    proof (rule "1.IH"[OF True refl refl refl ps[symmetric] _ _ _ len1])
      show "0 \<le> sI + 1" "sI + 1 \<le> BATCH_SIZE" "idx + 8 = 1 + 8 * (sI + 1)"
        using True "1.prems"(1,3) by simp_all
    qed
    have tk: "take (nat (idx + 8)) ?p1 = take (nat idx) packet @ sampleBytes (?ir, ?red)"
      using fits by (simp add: sampleBytes_def nat_add_distrib)
    have upt: "[nat sI..<nat BATCH_SIZE] = nat sI # [nat (sI + 1)..<nat BATCH_SIZE]"
      using True "1.prems" by (simp add: upt_conv_Cons nat_add_distrib)
    have unf: "packBatch irC redC p sI idx packet = packBatch irC redC p (sI + 1) (idx + 8) ?p1"
      using True by (subst packBatch.simps) (simp add: ps)
    show ?thesis
      unfolding unf ih tk upt using "1.prems"(1) by simp
  qed
qed

lemma take_drop_nth_map:
  "m + n \<le> length xs \<Longrightarrow> take n (drop m xs) = map (\<lambda>k. xs ! (m + k)) [0..<n]"
  by (rule nth_equalityI) simp_all

lemma packet_eq_frameOf:
  assumes "0 \<le> p" "(nat p + 1) * nat BATCH_SIZE \<le> length irC" "length redC = length irC"
  shows "packBatch irC redC p 0 1 ((replicate (nat PACKET_SIZE) 0)[0 := sq]) = frameOf sq (batch irC redC (nat p))"
proof -
  have idx: "nat p * 16 + k < length irC" if "k < 16" for k
    using assms(2) that by (simp add: consts_eval)
  have "map (\<lambda>k. (irC ! nat (p * BATCH_SIZE + int k), redC ! nat (p * BATCH_SIZE + int k))) [0..<nat BATCH_SIZE] =
        batch irC redC (nat p)"
    unfolding batch_def
    using assms idx
    by (subst take_drop_nth_map) (simp_all add: consts_eval nat_add_distrib nat_mult_distrib)
  from this[symmetric]
  have "map (\<lambda>k. sampleBytes (irC ! nat (p * BATCH_SIZE + int k), redC ! nat (p * BATCH_SIZE + int k))) [0..<nat BATCH_SIZE] =
        map sampleBytes (batch irC redC (nat p))"
    by (simp only: map_map o_def)
  then show ?thesis
    by (subst packBatch_eq) (simp_all add: consts_eval frameOf_def take_Suc_conv_app_nth)
qed

lemma sendPackets_eq:
  "0 \<le> p \<Longrightarrow> p \<le> n \<Longrightarrow> nat n * nat BATCH_SIZE \<le> length irC \<Longrightarrow> length redC = length irC \<Longrightarrow>
   sendPackets sq irC redC n p =
     concat (map (\<lambda>q. [BleNotify (frameOf sq (batch irC redC q)), PacingDelay]) [nat p..<nat n])"
proof (induction sq irC redC n p rule: sendPackets.induct)
  case (1 sq irC redC n p)
  show ?case
  proof (cases "p < n")
    case False
    with "1.prems" show ?thesis by (subst sendPackets.simps) simp
  next
    case True
    have "(nat p + 1) * nat BATCH_SIZE \<le> nat n * nat BATCH_SIZE"
      using True "1.prems"(1) by (intro mult_le_mono1) simp
    with "1.prems" have fit: "(nat p + 1) * nat BATCH_SIZE \<le> length irC" by simp
    note pk = packet_eq_frameOf[OF "1.prems"(1) fit "1.prems"(4), of sq]
    have ih: "sendPackets sq irC redC n (p + 1) =
          concat (map (\<lambda>q. [BleNotify (frameOf sq (batch irC redC q)), PacingDelay]) [nat (p + 1)..<nat n])"
      using "1.IH"[OF True refl refl] True "1.prems" by simp
    have upt: "[nat p..<nat n] = nat p # [nat (p + 1)..<nat n]"
      using True "1.prems" by (simp add: upt_conv_Cons nat_add_distrib)
    have unf: "sendPackets sq irC redC n p =
        [BleNotify (frameOf sq (batch irC redC (nat p))), PacingDelay] @ sendPackets sq irC redC n (p + 1)"
      using True by (subst sendPackets.simps) (simp add: pk Let_def)
    show ?thesis
      unfolding unf ih upt by simp
  qed
qed

lemma length_sampleBytes: "length (sampleBytes x) = 8"
  by (simp add: sampleBytes_def)

lemma concat_sampleBytes_nth:
  "k < length xs \<Longrightarrow> j < 8 \<Longrightarrow> concat (map sampleBytes xs) ! (8 * k + j) = sampleBytes (xs ! k) ! j"
proof (induction xs arbitrary: k)
  case Nil
  then show ?case by simp
next
  case (Cons x xs)
  show ?case
  proof (cases k)
    case 0
    with Cons.prems show ?thesis by (simp add: nth_append length_sampleBytes)
  next
    case (Suc k')
    with Cons.prems have "k' < length xs" by simp
    from Cons.IH[OF this Cons.prems(2)] Suc show ?thesis
      by (simp add: nth_append length_sampleBytes)
  qed
qed

lemma decodeSample_frameOf:
  assumes "k < length xs"
  shows "decodeSample (frameOf sq xs) k = xs ! k"
proof -
  have nth: "frameOf sq xs ! (8 * k + Suc j) = sampleBytes (xs ! k) ! j" if "j < 8" for j
    using concat_sampleBytes_nth[OF assms that] by (simp add: frameOf_def)
  have "decodeSample (frameOf sq xs) k =
        (be32 (sampleBytes (xs ! k) ! 0) (sampleBytes (xs ! k) ! 1) (sampleBytes (xs ! k) ! 2) (sampleBytes (xs ! k) ! 3),
         be32 (sampleBytes (xs ! k) ! 4) (sampleBytes (xs ! k) ! 5) (sampleBytes (xs ! k) ! 6) (sampleBytes (xs ! k) ! 7))"
    using nth[of 0] nth[of 1] nth[of 2] nth[of 3] nth[of 4] nth[of 5] nth[of 6] nth[of 7]
    by (simp add: decodeSample_def eval_nat_numeral)
  also have "\<dots> = xs ! k"
    by (cases "xs ! k") (simp add: sampleBytes_def be32_bytes)
  finally show ?thesis .
qed

lemma decodeFrame_frameOf: "length xs = nat BATCH_SIZE \<Longrightarrow> decodeFrame (frameOf sq xs) = xs"
  by (rule nth_equalityI) (simp_all add: decodeFrame_def decodeSample_frameOf)

lemma length_frameOf: "length (frameOf sq xs) = 1 + 8 * length xs"
  by (induction xs) (simp_all add: frameOf_def length_sampleBytes)

lemma notified_concat:
  "notified (concat (map (\<lambda>q. [BleNotify (F q), PacingDelay]) qs)) = map F qs"
  by (induction qs) simp_all

lemma length_batch:
  "(q + 1) * nat BATCH_SIZE \<le> length irC \<Longrightarrow> length redC = length irC \<Longrightarrow>
   length (batch irC redC q) = nat BATCH_SIZE"
  by (simp add: batch_def)

lemma batches_concat:
  assumes "length irC = nat CHUNK_SIZE" "length redC = nat CHUNK_SIZE"
  shows "concat (map (batch irC redC) [0..<nat (CHUNK_SIZE sdiv BATCH_SIZE)]) = zip irC redC"
proof -
  have two: "[0..<nat (CHUNK_SIZE sdiv BATCH_SIZE)] = [0, 1]"
    by (simp add: consts_eval upt_conv_Cons)
  have "take 16 (zip irC redC) @ take 16 (drop 16 (zip irC redC)) = take (16 + 16) (zip irC redC)"
    by (simp only: take_add)
  with assms show ?thesis
    unfolding two by (simp add: batch_def consts_eval)
qed

lemma sendPackets_frames:
  assumes "length irC = nat CHUNK_SIZE" "length redC = nat CHUNK_SIZE"
  shows "notified (sendPackets sq irC redC (CHUNK_SIZE sdiv BATCH_SIZE) 0) =
           map (\<lambda>q. frameOf sq (batch irC redC q)) [0..<nat (CHUNK_SIZE sdiv BATCH_SIZE)]"
    and "\<forall>f \<in> set (notified (sendPackets sq irC redC (CHUNK_SIZE sdiv BATCH_SIZE) 0)).
            length f = nat PACKET_SIZE \<and> f ! 0 = sq"
    and "decodeFrames (notified (sendPackets sq irC redC (CHUNK_SIZE sdiv BATCH_SIZE) 0)) = zip irC redC"
proof -
  have fit: "nat (CHUNK_SIZE sdiv BATCH_SIZE) * nat BATCH_SIZE \<le> length irC" and eq: "length redC = length irC"
    using assms by (simp_all add: consts_eval)
  show fr: "notified (sendPackets sq irC redC (CHUNK_SIZE sdiv BATCH_SIZE) 0) =
           map (\<lambda>q. frameOf sq (batch irC redC q)) [0..<nat (CHUNK_SIZE sdiv BATCH_SIZE)]"
    using sendPackets_eq[OF _ _ fit eq, of 0 sq]
    by (simp add: consts_eval notified_concat)
  have lb: "length (batch irC redC q) = nat BATCH_SIZE" if "q < nat (CHUNK_SIZE sdiv BATCH_SIZE)" for q
  proof (rule length_batch[OF _ eq])
    from that have "(q + 1) * nat BATCH_SIZE \<le> nat (CHUNK_SIZE sdiv BATCH_SIZE) * nat BATCH_SIZE"
      by (intro mult_le_mono1) simp
    with fit show "(q + 1) * nat BATCH_SIZE \<le> length irC" by simp
  qed
  have dec: "map (\<lambda>q. decodeFrame (frameOf sq (batch irC redC q))) [0..<nat (CHUNK_SIZE sdiv BATCH_SIZE)] =
             map (batch irC redC) [0..<nat (CHUNK_SIZE sdiv BATCH_SIZE)]"
    by (rule map_cong[OF refl]) (simp add: decodeFrame_frameOf lb)
  show "decodeFrames (notified (sendPackets sq irC redC (CHUNK_SIZE sdiv BATCH_SIZE) 0)) = zip irC redC"
    unfolding fr decodeFrames_def map_map o_def dec
    by (rule batches_concat[OF assms])
  show "\<forall>f \<in> set (notified (sendPackets sq irC redC (CHUNK_SIZE sdiv BATCH_SIZE) 0)).
            length f = nat PACKET_SIZE \<and> f ! 0 = sq"
    unfolding fr using lb by (auto simp: length_frameOf consts_eval) (simp add: frameOf_def)
qed

text \<open>
  Claim C4. For chunk arrays of \<open>CHUNK_SIZE\<close> entries and any sequence byte, the
  packets \<open>transmitChunk\<close>'s loops hand to the BLE stack are the
  \<open>CHUNK_SIZE / BATCH_SIZE\<close> frames of the spec's layout, one per batch and in order; each
  has \<open>PACKET_SIZE\<close> bytes and starts with the sequence byte; decoding them by the layout
  gives back exactly the (IR, Red) pairs of the chunk, in their order.
\<close>

theorem chunk_roundtrip:
  assumes "length irC = nat CHUNK_SIZE" "length redC = nat CHUNK_SIZE"
  shows "notified (sendPackets sq irC redC (CHUNK_SIZE sdiv BATCH_SIZE) 0) =
           map (\<lambda>q. frameOf sq (batch irC redC q)) [0..<nat (CHUNK_SIZE sdiv BATCH_SIZE)] \<and>
         (\<forall>f \<in> set (notified (sendPackets sq irC redC (CHUNK_SIZE sdiv BATCH_SIZE) 0)).
            length f = nat PACKET_SIZE \<and> f ! 0 = sq) \<and>
         decodeFrames (notified (sendPackets sq irC redC (CHUNK_SIZE sdiv BATCH_SIZE) 0)) = zip irC redC"
  using sendPackets_frames[OF assms, of sq] by blast

theorem chunk_roundtrip_witness:
  "length (map fst (ramp 32)) = nat CHUNK_SIZE \<and> length (map snd (ramp 32)) = nat CHUNK_SIZE \<and>
   decodeFrames (notified (sendPackets 7 (map fst (ramp 32)) (map snd (ramp 32)) (CHUNK_SIZE sdiv BATCH_SIZE) 0)) = ramp 32"
proof -
  have l: "length (map fst (ramp 32)) = nat CHUNK_SIZE" "length (map snd (ramp 32)) = nat CHUNK_SIZE"
    by (simp_all add: ramp_def consts_eval)
  from chunk_roundtrip[OF l, of 7]
  have "decodeFrames (notified (sendPackets 7 (map fst (ramp 32)) (map snd (ramp 32)) (CHUNK_SIZE sdiv BATCH_SIZE) 0)) =
        zip (map fst (ramp 32)) (map snd (ramp 32))"
    by (rule conjunct2[OF conjunct2])
  then show ?thesis
    using l by (simp only: zip_map_fst_snd simp_thms)
qed

subsection \<open>Sequence numbers\<close>

lemma notified_append: "notified (xs @ ys) = notified xs @ notified ys"
  by (induction xs rule: notified.induct) simp_all

lemma transmitChunk_fail:
  "bufferCount s < CHUNK_SIZE \<Longrightarrow> transmitChunk dl s = (False, s, [])"
  by (simp add: transmitChunk_def extractChunk_def)

lemma transmitChunk_ok:
  assumes "buf_inv s" "CHUNK_SIZE \<le> bufferCount s"
  shows "fst (transmitChunk dl s)"
    and "fst (snd (transmitChunk dl s)) = (snd (extractChunk s))\<lparr>seqNumber := seqNumber s + 1\<rparr>"
    and "notified (snd (snd (transmitChunk dl s))) =
           map (\<lambda>q. frameOf (seqNumber s + 1) (batch (irChunk (snd (extractChunk s))) (redChunk (snd (extractChunk s))) q))
               [0..<nat (CHUNK_SIZE sdiv BATCH_SIZE)]"
    and "decodeFrames (notified (snd (snd (transmitChunk dl s)))) = take (nat CHUNK_SIZE) (buffered s)"
proof -
  obtain s1 where ex: "extractChunk s = (True, s1)"
    using extractChunk_buffered(1)[OF assms] by (cases "extractChunk s") simp
  have sq: "seqNumber s1 = seqNumber s"
    using ex assms(2) by (auto simp: extractChunk_def Let_def extractLoop_fields)
  from extractChunk_buffered(4)[OF assms] ex have "arrays_ok s1" by (simp add: buf_inv_def)
  then have len: "length (irChunk s1) = nat CHUNK_SIZE" "length (redChunk s1) = nat CHUNK_SIZE"
    by (simp_all add: arrays_ok_def)
  note rt = sendPackets_frames[OF len, of "seqNumber s + 1"]
  have tx: "transmitChunk dl s =
     (True, s1\<lparr>seqNumber := seqNumber s + 1\<rparr>,
      sendPackets (seqNumber s + 1) (irChunk s1) (redChunk s1) (CHUNK_SIZE sdiv BATCH_SIZE) 0 @
      (if dl \<ge> DEBUG_INFO then [SerialChunkSent (uint (seqNumber s + 1) - 1)] else []))"
    by (simp add: transmitChunk_def ex Let_def sq)
  show "fst (transmitChunk dl s)" by (simp add: tx)
  show "fst (snd (transmitChunk dl s)) = (snd (extractChunk s))\<lparr>seqNumber := seqNumber s + 1\<rparr>"
    by (simp add: tx ex)
  have nt: "notified (snd (snd (transmitChunk dl s))) =
        notified (sendPackets (seqNumber s + 1) (irChunk s1) (redChunk s1) (CHUNK_SIZE sdiv BATCH_SIZE) 0)"
    by (simp add: tx notified_append)
  show "notified (snd (snd (transmitChunk dl s))) =
           map (\<lambda>q. frameOf (seqNumber s + 1) (batch (irChunk (snd (extractChunk s))) (redChunk (snd (extractChunk s))) q))
               [0..<nat (CHUNK_SIZE sdiv BATCH_SIZE)]"
    unfolding nt rt(1) by (simp add: ex)
  show "decodeFrames (notified (snd (snd (transmitChunk dl s)))) = take (nat CHUNK_SIZE) (buffered s)"
    unfolding nt rt(3) using extractChunk_buffered(2)[OF assms] by (simp add: ex)
qed

lemma pollLoop_seqNumber: "seqNumber (fst (snd (pollLoop dl avail n s))) = seqNumber s"
proof (induction avail arbitrary: n s)
  case Nil
  show ?case by simp
next
  case (Cons x avail)
  have "seqNumber (fst (pollStep dl x s)) = seqNumber s"
    by (simp add: pollStep_def split_beta)
  with Cons[of "n + 1" "fst (pollStep dl x s)"] show ?case by (simp add: split_beta)
qed

lemma pollSensor_seqNumber: "seqNumber (fst (snd (pollSensor dl avail s))) = seqNumber s"
  by (simp add: pollSensor_def pollLoop_seqNumber)

lemma seq_run:
  "buf_inv s \<Longrightarrow> \<forall>e \<in> set es. sessionEvent e \<Longrightarrow>
   seqNumber (fst (run dl es s)) = seqNumber s + of_nat (length (frameGroups dl es s)) \<and>
   (\<forall>k < length (frameGroups dl es s).
      length (frameGroups dl es s ! k) = nat (CHUNK_SIZE sdiv BATCH_SIZE) \<and>
      (\<forall>f \<in> set (frameGroups dl es s ! k). f ! 0 = seqNumber s + of_nat (k + 1)))"
proof (induction es arbitrary: s)
  case Nil
  then show ?case by simp
next
  case (Cons e es)
  let ?s1 = "fst (exec dl e s)"
  have inv1: "buf_inv ?s1" by (rule exec_buf_inv[OF Cons.prems(1)])
  from Cons.prems(2) have ses: "\<forall>e \<in> set es. sessionEvent e" and e: "sessionEvent e" by simp_all
  note ih = Cons.IH[OF inv1 ses]
  show ?case
  proof (cases "e = Transmit \<and> CHUNK_SIZE \<le> bufferCount s")
    case False
    then have same: "seqNumber ?s1 = seqNumber s" and g: "frameGroups dl (e # es) s = frameGroups dl es ?s1"
      using e by (cases e; simp add: handleCommands_buffer pollSensor_seqNumber transmitChunk_fail)+
    from ih show ?thesis
      unfolding g by (simp add: split_beta same)
  next
    case True
    then have et: "e = Transmit" and en: "CHUNK_SIZE \<le> bufferCount s" by simp_all
    note ok = transmitChunk_ok[OF Cons.prems(1) en, of dl]
    have s1: "seqNumber ?s1 = seqNumber s + 1"
      by (simp add: et ok(2))
    let ?g = "notified (snd (snd (transmitChunk dl s)))"
    have g: "frameGroups dl (e # es) s = ?g # frameGroups dl es ?s1"
      using ok(1) by (simp add: et split_beta)
    have hd: "length ?g = nat (CHUNK_SIZE sdiv BATCH_SIZE)" "\<forall>f \<in> set ?g. f ! 0 = seqNumber s + 1"
      unfolding ok(3) by (simp_all add: frameOf_def)
    show ?thesis
      unfolding g using ih hd
      by (auto simp: split_beta s1 nth_Cons add.assoc split: nat.splits)
  qed
qed

lemma pollLoop_total:
  "totalSamplesDuringStream (fst (snd (pollLoop dl avail n s))) = totalSamplesDuringStream s + of_nat (length avail)"
proof (induction avail arbitrary: n s)
  case Nil
  show ?case by simp
next
  case (Cons x avail)
  have "totalSamplesDuringStream (fst (pollStep dl x s)) = totalSamplesDuringStream s + 1"
    by (simp add: pollStep_def split_beta)
  with Cons[of "n + 1" "fst (pollStep dl x s)"] show ?case by (simp add: split_beta)
qed

lemma pollLoop_misc:
  "streamingStartTime (fst (snd (pollLoop dl avail n s))) = streamingStartTime s \<and>
   sensorConfigured (fst (snd (pollLoop dl avail n s))) = sensorConfigured s"
proof (induction avail arbitrary: n s)
  case Nil
  show ?case by simp
next
  case (Cons x avail)
  have "streamingStartTime (fst (pollStep dl x s)) = streamingStartTime s \<and>
        sensorConfigured (fst (pollStep dl x s)) = sensorConfigured s"
    by (simp add: pollStep_def split_beta)
  with Cons[of "n + 1" "fst (pollStep dl x s)"] show ?case by (simp add: split_beta)
qed

lemma pollSensor_total:
  "totalSamplesDuringStream (fst (snd (pollSensor dl avail s))) =
     (if streaming s then totalSamplesDuringStream s + of_nat (length avail) else totalSamplesDuringStream s)"
  by (simp add: pollSensor_def pollLoop_total)

lemma pollSensor_misc:
  "streamingStartTime (fst (snd (pollSensor dl avail s))) = streamingStartTime s"
  "sensorConfigured (fst (snd (pollSensor dl avail s))) = sensorConfigured s"
  by (simp_all add: pollSensor_def pollLoop_misc)


lemma transmitChunk_fst: "fst (transmitChunk dl s) \<longleftrightarrow> CHUNK_SIZE \<le> bufferCount s"
  by (simp add: transmitChunk_def extractChunk_def Let_def)

lemma transmitChunk_fields:
  "bufferCount (fst (snd (transmitChunk dl s))) =
     (if bufferCount s < CHUNK_SIZE then bufferCount s else bufferCount s - CHUNK_SIZE)"
  "seqNumber (fst (snd (transmitChunk dl s))) =
     (if bufferCount s < CHUNK_SIZE then seqNumber s else seqNumber s + 1)"
  "streaming (fst (snd (transmitChunk dl s))) = streaming s"
  "totalSamplesDuringStream (fst (snd (transmitChunk dl s))) = totalSamplesDuringStream s"
  "streamingStartTime (fst (snd (transmitChunk dl s))) = streamingStartTime s"
  "sensorConfigured (fst (snd (transmitChunk dl s))) = sensorConfigured s"
  by (simp_all add: transmitChunk_def extractChunk_def Let_def extractLoop_fields)

lemma run_Cons_fst: "fst (run dl (e # es) s) = fst (run dl es (fst (exec dl e s)))"
  by (simp add: split_beta)

lemma run_Cons_snd: "snd (run dl (e # es) s) = snd (exec dl e s) @ snd (run dl es (fst (exec dl e s)))"
  by (simp add: split_beta)

lemma filter_summary_debugPrint: "filter isSummary (debugPrint dl level msg) = []"
  by (simp add: debugPrint_def)

lemma summary_effects:
  "filter isSummary (printStreamingSummary now s) = printStreamingSummary now s"
  by (simp add: printStreamingSummary_def)

lemma handleDisconnect_summary:
  "filter isSummary (snd (handleDisconnect dl now s)) = printStreamingSummary now s"
  by (simp add: handleDisconnect_def resetStreamingState_def shutdownSensor_def split_beta
      filter_summary_debugPrint summary_effects)

lemma handleCommands_pause_summary:
  "filter isSummary (snd (snd (handleCommands dl now (Some CHR ''P'') s))) = printStreamingSummary now s"
  by (simp add: handleCommands_def Let_def filter_summary_debugPrint summary_effects)
     (simp add: printStreamingSummary_def)

lemma connected_facts:
  "bufferCount (fst (resetStreamingState dl s)) = 0" "seqNumber (fst (resetStreamingState dl s)) = 0"
  "\<not> streaming (fst (resetStreamingState dl s))" "totalSamplesDuringStream (fst (resetStreamingState dl s)) = 0"
  by (simp_all add: resetStreamingState_def)

lemma handleCommands_start:
  "\<not> streaming s \<Longrightarrow> streaming (fst (snd (handleCommands dl now (Some CHR ''S'') s)))"
  "\<not> streaming s \<Longrightarrow> streamingStartTime (fst (snd (handleCommands dl now (Some CHR ''S'') s))) = now"
  "\<not> streaming s \<Longrightarrow> sensorConfigured (fst (snd (handleCommands dl now (Some CHR ''S'') s)))"
  by (simp_all add: handleCommands_def Let_def split_beta configureSensor_def)

lemma handleCommands_pause:
  "handleCommands dl now (Some CHR ''P'') s =
     (True, s\<lparr>streaming := False\<rparr>,
      debugPrint dl DEBUG_INFO ''Command: PAUSE streaming'' @ printStreamingSummary now (s\<lparr>streaming := False\<rparr>))"
  by (simp add: handleCommands_def Let_def)

lemmas run_eval = run_Cons_fst exec.simps handleCommands_buffer handleCommands_start handleCommands_pause
  pollSensor_count pollSensor_streaming pollSensor_seqNumber pollSensor_total pollSensor_misc
  transmitChunk_fst transmitChunk_fields connected_facts consts_eval

lemma twoChunk_groups: "length (frameGroups 0 twoChunkEvents (fst (resetStreamingState 0 init_state))) = 2"
  by (simp add: twoChunkEvents_def run_eval split_beta ramp_def)

lemma unat_seq: "unat (of_nat n :: u8) = n mod 256"
  by (simp add: unat_of_nat)

text \<open>
  Claim C5. After the reset at connect, over any sequence of commands, polls and
  transmission attempts: the \<open>k\<close>-th transmitted chunk (counting from 1) consists of
  \<open>CHUNK_SIZE / BATCH_SIZE\<close> frames that all carry the sequence byte \<open>k mod 256\<close>, and
  the counter ends at the number of chunks transmitted, modulo 256: it starts at 0 and
  moves once per chunk.
\<close>

theorem sequence_numbering:
  assumes "arrays_ok s" "\<forall>e \<in> set es. sessionEvent e"
  shows "seqNumber (fst (resetStreamingState dl s)) = 0 \<and>
    unat (seqNumber (fst (run dl es (fst (resetStreamingState dl s))))) =
      length (frameGroups dl es (fst (resetStreamingState dl s))) mod 256 \<and>
    (\<forall>k < length (frameGroups dl es (fst (resetStreamingState dl s))).
       length (frameGroups dl es (fst (resetStreamingState dl s)) ! k) = nat (CHUNK_SIZE sdiv BATCH_SIZE) \<and>
       (\<forall>f \<in> set (frameGroups dl es (fst (resetStreamingState dl s)) ! k). unat (f ! 0) = (k + 1) mod 256))"
proof -
  let ?s0 = "fst (resetStreamingState dl s)"
  have inv: "buf_inv ?s0" by (rule resetStreamingState_buf_inv[OF assms(1)])
  have z: "seqNumber ?s0 = 0" by (simp add: resetStreamingState_def)
  from seq_run[OF inv assms(2), of dl] z
  have a: "seqNumber (fst (run dl es ?s0)) = of_nat (length (frameGroups dl es ?s0))"
    and b: "\<forall>k < length (frameGroups dl es ?s0).
      length (frameGroups dl es ?s0 ! k) = nat (CHUNK_SIZE sdiv BATCH_SIZE) \<and>
      (\<forall>f \<in> set (frameGroups dl es ?s0 ! k). f ! 0 = of_nat (k + 1))"
    by simp_all
  from b have "\<forall>k < length (frameGroups dl es ?s0).
      length (frameGroups dl es ?s0 ! k) = nat (CHUNK_SIZE sdiv BATCH_SIZE) \<and>
      (\<forall>f \<in> set (frameGroups dl es ?s0 ! k). unat (f ! 0) = (k + 1) mod 256)"
    using unat_seq by metis
  with z a show ?thesis
    by (simp only: unat_seq simp_thms)
qed

theorem sequence_numbering_witness:
  "arrays_ok init_state \<and> list_all sessionEvent twoChunkEvents \<and>
   length (frameGroups 0 twoChunkEvents (fst (resetStreamingState 0 init_state))) = 2 \<and>
   list_all (\<lambda>f. unat (f ! 0) = 1) (frameGroups 0 twoChunkEvents (fst (resetStreamingState 0 init_state)) ! 0) \<and>
   list_all (\<lambda>f. unat (f ! 0) = 2) (frameGroups 0 twoChunkEvents (fst (resetStreamingState 0 init_state)) ! 1) \<and>
   unat (seqNumber (fst (run 0 twoChunkEvents (fst (resetStreamingState 0 init_state))))) = 2"
proof -
  have a: "arrays_ok init_state" by (simp add: arrays_ok_def init_state_def)
  have e: "\<forall>e \<in> set twoChunkEvents. sessionEvent e" by (simp add: twoChunkEvents_def)
  from sequence_numbering[OF a e, of 0] show ?thesis
    using a e by (simp add: twoChunk_groups numeral_2_eq_2 All_less_Suc list_all_iff)
qed

text \<open>
  Claim C10. In any state reached inside a connection, the summary, whether printed by a
  pause command or by the disconnect handler, reports as "Chunks sent" the number of
  chunks transmitted since the reset at connect, modulo 256. The events before may contain
  any number of start and pause commands: the figure counts from the connection, not from
  the latest start.
\<close>

theorem chunks_sent_figure:
  assumes "arrays_ok s" "\<forall>e \<in> set es. sessionEvent e"
  shows "printStreamingSummary now (fst (run dl es (fst (resetStreamingState dl s)))) =
      (if totalSamplesDuringStream (fst (run dl es (fst (resetStreamingState dl s)))) = 0 then []
       else [SerialSummary (now - streamingStartTime (fst (run dl es (fst (resetStreamingState dl s)))))
               (totalSamplesDuringStream (fst (run dl es (fst (resetStreamingState dl s)))))
               (of_nat (length (frameGroups dl es (fst (resetStreamingState dl s)))))]) \<and>
    filter isSummary (snd (snd (handleCommands dl now (Some CHR ''P'') (fst (run dl es (fst (resetStreamingState dl s))))))) =
      printStreamingSummary now (fst (run dl es (fst (resetStreamingState dl s)))) \<and>
    filter isSummary (snd (handleDisconnect dl now (fst (run dl es (fst (resetStreamingState dl s)))))) =
      printStreamingSummary now (fst (run dl es (fst (resetStreamingState dl s)))) \<and>
    unat (of_nat (length (frameGroups dl es (fst (resetStreamingState dl s)))) :: u8) =
      length (frameGroups dl es (fst (resetStreamingState dl s))) mod 256"
proof -
  let ?s0 = "fst (resetStreamingState dl s)"
  have inv: "buf_inv ?s0" by (rule resetStreamingState_buf_inv[OF assms(1)])
  have z: "seqNumber ?s0 = 0" by (simp add: resetStreamingState_def)
  from seq_run[OF inv assms(2), of dl] z
  have a: "seqNumber (fst (run dl es ?s0)) = of_nat (length (frameGroups dl es ?s0))"
    by simp
  show ?thesis
    by (simp add: handleCommands_pause_summary handleDisconnect_summary unat_seq)
       (simp add: printStreamingSummary_def a)
qed

theorem chunks_sent_figure_witness:
  "arrays_ok init_state \<and> list_all sessionEvent twoChunkEvents \<and>
   printStreamingSummary 30 (fst (run 0 twoChunkEvents (fst (resetStreamingState 0 init_state)))) =
     [SerialSummary 10 80 2]"
proof -
  have a: "arrays_ok init_state" by (simp add: arrays_ok_def init_state_def)
  have e: "\<forall>e \<in> set twoChunkEvents. sessionEvent e" by (simp add: twoChunkEvents_def)
  have t: "totalSamplesDuringStream (fst (run 0 twoChunkEvents (fst (resetStreamingState 0 init_state)))) = 80"
    and st: "streamingStartTime (fst (run 0 twoChunkEvents (fst (resetStreamingState 0 init_state)))) = 20"
    by (simp_all add: twoChunkEvents_def run_eval split_beta ramp_def)
  from chunks_sent_figure[OF a e, of 30 0] show ?thesis
    using a e by (simp add: twoChunk_groups t st list_all_iff)
qed

lemma pausedState_fields:
  "\<not> streaming pausedState" "totalSamplesDuringStream pausedState = 1" "sensorConfigured pausedState"
  "seqNumber pausedState = 0" "streamingStartTime pausedState = 0" "bufferCount pausedState = 1"
  by (simp_all add: pausedState_def restartEvents_def run_eval split_beta)

subsection \<open>Commands\<close>

lemma handleCommands_start_eq:
  "\<not> streaming s \<Longrightarrow>
   handleCommands dl now (Some CHR ''S'') s =
     (True, s\<lparr>sensorConfigured := True, streaming := True, streamingStartTime := now\<rparr>,
      debugPrint dl DEBUG_INFO ''Command: START streaming'' @
      (if sensorConfigured s then [] else snd (configureSensor dl s)))"
  by (cases "sensorConfigured s") (simp_all add: handleCommands_def Let_def configureSensor_def)

text \<open>
  Claim C6. An \<open>'S'\<close> received while idle makes the transition: the sensor is configured
  only if it is not yet (\<open>handleCommands_start_eq\<close>), the start time is recorded, streaming
  begins. It does not reset the session sample counter, which \<open>resetStreamingState\<close> alone
  clears: in the idle state left by a one-sample session, \<open>'S'\<close> at 20 ms records the start
  time 20 and leaves \<open>totalSamplesDuringStream\<close> at 1. The next summary then sets the
  samples of both sessions against the duration of the second.
\<close>

theorem start_keeps_sample_counter:
  "\<not> streaming pausedState \<and>
   handleCommands 0 20 (Some CHR ''S'') pausedState =
     (True, pausedState\<lparr>streaming := True, streamingStartTime := 20\<rparr>, []) \<and>
   totalSamplesDuringStream (fst (snd (handleCommands 0 20 (Some CHR ''S'') pausedState))) = 1"
  by (simp add: handleCommands_start_eq pausedState_fields debugPrint_def DEBUG_INFO_def)

lemma handleCommands_ignored:
  "handleCommands dl now None s = (False, s, [])"
  "c \<noteq> CHR ''S'' \<Longrightarrow> c \<noteq> CHR ''P'' \<Longrightarrow> handleCommands dl now (Some c) s = (False, s, [])"
  "streaming s \<Longrightarrow> handleCommands dl now (Some CHR ''S'') s = (False, s, [])"
  by (simp_all add: handleCommands_def)

lemma idle_pause_state: "\<not> streaming s \<Longrightarrow> s\<lparr>streaming := False\<rparr> = s"
  by simp

text \<open>
  What holds of the commands that make no transition: a \<open>'P'\<close> received while idle
  returns true and changes no pipeline state, but runs \<open>printStreamingSummary\<close>; a byte
  other than \<open>'S'\<close> and \<open>'P'\<close> in any state, no byte written, and \<open>'S'\<close> while streaming
  change nothing and print nothing.
\<close>

lemma idle_commands:
  assumes "\<not> streaming s" "streaming t" "c \<noteq> CHR ''S''" "c \<noteq> CHR ''P''"
  shows "handleCommands dl now (Some CHR ''P'') s =
           (True, s, debugPrint dl DEBUG_INFO ''Command: PAUSE streaming'' @ printStreamingSummary now s) \<and>
         filter isSummary (snd (snd (handleCommands dl now (Some CHR ''P'') s))) =
           (if totalSamplesDuringStream s = 0 then []
            else [SerialSummary (now - streamingStartTime s) (totalSamplesDuringStream s) (seqNumber s)]) \<and>
         handleCommands dl now (Some c) u = (False, u, []) \<and>
         handleCommands dl now None u = (False, u, []) \<and>
         handleCommands dl now (Some CHR ''S'') t = (False, t, [])"
  using assms
  by (simp add: handleCommands_pause handleCommands_ignored filter_summary_debugPrint)
     (simp add: printStreamingSummary_def)

text \<open>
  Claim C7. A \<open>'P'\<close> received while idle is not a no-op: the \<open>'P'\<close> branch of
  \<open>handleCommands\<close>, unlike the \<open>'S'\<close> branch, does not look at the streaming flag and
  always calls \<open>printStreamingSummary\<close>. In the idle state left by a one-sample session that
  was paused at 10 ms, a second \<open>'P'\<close> at 30 ms prints the summary again, now with 30 ms
  of elapsed time.
\<close>

theorem idle_pause_reemits_summary:
  "\<not> streaming pausedState \<and>
   snd (snd (handleCommands 0 30 (Some CHR ''P'') pausedState)) = [SerialSummary 30 1 0]"
  by (simp add: handleCommands_pause pausedState_fields debugPrint_def DEBUG_INFO_def
      printStreamingSummary_def)



subsection \<open>Extraction from a partly filled buffer\<close>

lemma poll_from_started:
  "fst (run 0 [Connect, Command (Some CHR ''S'') 0, Poll avail] init_state) =
     fst (snd (pollSensor 0 avail startedState))"
  by (simp add: startedState_def split_beta)

lemma buffered_after_first_poll:
  assumes "int (length avail) < BUFFER_SIZE"
  shows "buffered (fst (run 0 [Connect, Command (Some CHR ''S'') 0, Poll avail] init_state)) = avail"
    and "bufferCount (fst (run 0 [Connect, Command (Some CHR ''S'') 0, Poll avail] init_state)) = int (length avail)"
proof -
  have c: "bufferCount (fst (snd (pollSensor 0 avail startedState))) = int (length avail)"
    using assms by (simp add: pollSensor_count startedState_facts consts_eval)
  then have "bufferCount (fst (snd (pollSensor 0 avail startedState))) < BUFFER_SIZE"
    using assms by simp
  from pollSensor_buffered(1)[OF startedState_facts(1,2) this] c
  show "buffered (fst (run 0 [Connect, Command (Some CHR ''S'') 0, Poll avail] init_state)) = avail"
    and "bufferCount (fst (run 0 [Connect, Command (Some CHR ''S'') 0, Poll avail] init_state)) = int (length avail)"
    unfolding poll_from_started by (simp_all add: startedState_facts)
qed

lemma length_ramp: "length (ramp n) = n"
  by (simp add: ramp_def)


theorem extractChunk_all_or_nothing_witness:
  "bufferCount partChunkState = 31 \<and> buffered partChunkState = ramp 31 \<and>
   bufferCount partChunkState < CHUNK_SIZE \<and>
   extractChunk partChunkState = (False, partChunkState) \<and>
   transmitChunk 0 partChunkState = (False, partChunkState, []) \<and>
   buffered (snd (extractChunk partChunkState)) = ramp 31"
proof -
  have l: "int (length (ramp 31)) < BUFFER_SIZE" by (simp add: length_ramp consts_eval)
  note b = buffered_after_first_poll[OF l, folded partChunkState_def]
  have h: "bufferCount partChunkState < CHUNK_SIZE"
    by (simp add: b length_ramp consts_eval)
  from extractChunk_all_or_nothing[OF h, of 0] h b show ?thesis
    by (simp add: length_ramp)
qed

subsection \<open>Pausing\<close>







subsection \<open>A new connection starts clean\<close>

lemma pollStep_fields:
  "seqNumber (fst (pollStep dl x s)) = seqNumber s"
  "readIndex (fst (pollStep dl x s)) = readIndex s"
  "totalSamplesDuringStream (fst (pollStep dl x s)) = totalSamplesDuringStream s + 1"
  "streaming (fst (pollStep dl x s)) = streaming s"
  "sensorConfigured (fst (pollStep dl x s)) = sensorConfigured s"
  "streamingStartTime (fst (pollStep dl x s)) = streamingStartTime s"
  "writeIndex (fst (pollStep dl x s)) =
     (if bufferCount s < BUFFER_SIZE then (writeIndex s + 1) smod BUFFER_SIZE else writeIndex s)"
  "bufferCount (fst (pollStep dl x s)) =
     (if bufferCount s < BUFFER_SIZE then bufferCount s + 1 else bufferCount s)"
  "snd (pollStep dl x s) =
     (if bufferCount s < BUFFER_SIZE then [] else debugPrint dl DEBUG_INFO ''BUFFER OVERFLOW'')"
  by (simp_all add: pollStep_def split_beta)

lemma pollStep_buffered_full:
  "\<not> bufferCount s < BUFFER_SIZE \<Longrightarrow> buffered (fst (pollStep dl x s)) = buffered s"
  by (simp add: pollStep_def buffered_def)

lemma sim_pollStep:
  assumes "sim s t" "streaming s"
  shows "sim (fst (pollStep dl x s)) (fst (pollStep dl x t))"
    and "snd (pollStep dl x s) = snd (pollStep dl x t)"
proof -
  from assms(1) have inv: "buf_inv s" "buf_inv t" and c: "bufferCount s = bufferCount t"
    and b: "buffered s = buffered t"
    by (simp_all add: sim_def)
  have bb: "buffered (fst (pollStep dl x s)) = buffered (fst (pollStep dl x t))"
  proof (cases "bufferCount s < BUFFER_SIZE")
    case True
    then have "bufferCount t < BUFFER_SIZE" using c by simp
    from pollStep_buffered(1)[OF inv(1) True] pollStep_buffered(1)[OF inv(2) this] b
    show ?thesis by simp
  next
    case False
    then have "\<not> bufferCount t < BUFFER_SIZE" using c by simp
    from pollStep_buffered_full[OF False] pollStep_buffered_full[OF this] b
    show ?thesis by simp
  qed
  show "sim (fst (pollStep dl x s)) (fst (pollStep dl x t))"
    using assms bb pollStep_buf_inv[OF inv(1), of dl x] pollStep_buf_inv[OF inv(2), of dl x]
    by (simp add: sim_def pollStep_fields)
  show "snd (pollStep dl x s) = snd (pollStep dl x t)"
    using c by (simp add: pollStep_fields)
qed

lemma sim_pollLoop:
  "sim s t \<Longrightarrow> streaming s \<Longrightarrow>
   sim (fst (snd (pollLoop dl avail n s))) (fst (snd (pollLoop dl avail n t))) \<and>
   snd (snd (pollLoop dl avail n s)) = snd (snd (pollLoop dl avail n t))"
proof (induction avail arbitrary: n s t)
  case Nil
  then show ?case by simp
next
  case (Cons x avail)
  note st = sim_pollStep[OF Cons.prems, of dl x]
  have "streaming (fst (pollStep dl x s))" using Cons.prems(2) by (simp add: pollStep_fields)
  from Cons.IH[OF st(1) this, of "n + 1"] st(2) show ?case
    by (simp add: split_beta)
qed

lemma sim_pollSensor:
  assumes "sim s t"
  shows "sim (fst (snd (pollSensor dl avail s))) (fst (snd (pollSensor dl avail t)))"
    and "snd (snd (pollSensor dl avail s)) = snd (snd (pollSensor dl avail t))"
proof -
  from assms have st: "streaming s = streaming t" by (simp add: sim_def)
  show "sim (fst (snd (pollSensor dl avail s))) (fst (snd (pollSensor dl avail t)))"
    and "snd (snd (pollSensor dl avail s)) = snd (snd (pollSensor dl avail t))"
    using sim_pollLoop[OF assms, of dl avail 0] assms st
    by (simp_all add: pollSensor_def)
qed

lemma batch_zip: "batch irC redC q = take (nat BATCH_SIZE) (drop (q * nat BATCH_SIZE) (zip irC redC))"
  by (simp add: batch_def)

lemma transmitChunk_effects:
  assumes "buf_inv s" "CHUNK_SIZE \<le> bufferCount s"
  shows "snd (snd (transmitChunk dl s)) =
     concat (map (\<lambda>q. [BleNotify (frameOf (seqNumber s + 1)
                           (take (nat BATCH_SIZE) (drop (q * nat BATCH_SIZE) (take (nat CHUNK_SIZE) (buffered s))))),
                      PacingDelay])
                 [0..<nat (CHUNK_SIZE sdiv BATCH_SIZE)]) @
     (if dl \<ge> DEBUG_INFO then [SerialChunkSent (uint (seqNumber s + 1) - 1)] else [])"
proof -
  obtain s1 where ex: "extractChunk s = (True, s1)"
    using extractChunk_buffered(1)[OF assms] by (cases "extractChunk s") simp
  have sq: "seqNumber s1 = seqNumber s"
    using ex assms(2) by (auto simp: extractChunk_def Let_def extractLoop_fields)
  from extractChunk_buffered(4)[OF assms] ex have "arrays_ok s1" by (simp add: buf_inv_def)
  then have len: "length (irChunk s1) = nat CHUNK_SIZE" "length (redChunk s1) = nat CHUNK_SIZE"
    by (simp_all add: arrays_ok_def)
  have z: "zip (irChunk s1) (redChunk s1) = take (nat CHUNK_SIZE) (buffered s)"
    using extractChunk_buffered(2)[OF assms] ex by simp
  have fit: "nat (CHUNK_SIZE sdiv BATCH_SIZE) * nat BATCH_SIZE \<le> length (irChunk s1)"
    and eq: "length (redChunk s1) = length (irChunk s1)"
    using len by (simp_all add: consts_eval)
  have sp: "sendPackets (seqNumber s + 1) (irChunk s1) (redChunk s1) (CHUNK_SIZE sdiv BATCH_SIZE) 0 =
     concat (map (\<lambda>q. [BleNotify (frameOf (seqNumber s + 1)
                           (take (nat BATCH_SIZE) (drop (q * nat BATCH_SIZE) (take (nat CHUNK_SIZE) (buffered s))))),
                      PacingDelay])
                 [0..<nat (CHUNK_SIZE sdiv BATCH_SIZE)])"
    using sendPackets_eq[OF _ _ fit eq, of 0 "seqNumber s + 1"]
    by (simp add: consts_eval batch_zip z)
  show ?thesis
    by (simp add: transmitChunk_def ex Let_def sq sp)
qed

lemma extractChunk_readIndex:
  assumes "buf_inv s" "CHUNK_SIZE \<le> bufferCount s"
  shows "readIndex (snd (extractChunk s)) = (readIndex s + CHUNK_SIZE) mod BUFFER_SIZE"
proof -
  from assms(1) have "0 \<le> readIndex s" "readIndex s < BUFFER_SIZE"
    "length (irChunk s) = nat CHUNK_SIZE" "length (redChunk s) = nat CHUNK_SIZE"
    by (simp_all add: buf_inv_def in_range_def arrays_ok_def)
  from extractLoop_chunk[of 0 s, OF _ _ this] assms(2) show ?thesis
    by (simp add: extractChunk_def Let_def consts_eval)
qed

lemma extractChunk_misc:
  "writeIndex (snd (extractChunk s)) = writeIndex s"
  "seqNumber (snd (extractChunk s)) = seqNumber s"
  "totalSamplesDuringStream (snd (extractChunk s)) = totalSamplesDuringStream s"
  "sensorConfigured (snd (extractChunk s)) = sensorConfigured s"
  "streamingStartTime (snd (extractChunk s)) = streamingStartTime s"
  by (simp_all add: extractChunk_def Let_def extractLoop_fields)

lemma buffered_seqNumber: "buffered (s\<lparr>seqNumber := q\<rparr>) = buffered s"
  by (simp add: buffered_def)

lemma sim_transmitChunk:
  assumes "sim s t"
  shows "sim (fst (snd (transmitChunk dl s))) (fst (snd (transmitChunk dl t)))"
    and "snd (snd (transmitChunk dl s)) = snd (snd (transmitChunk dl t))"
proof -
  from assms have inv: "buf_inv s" "buf_inv t" and c: "bufferCount s = bufferCount t"
    and b: "buffered s = buffered t" and q: "seqNumber s = seqNumber t"
    by (simp_all add: sim_def)
  show "sim (fst (snd (transmitChunk dl s))) (fst (snd (transmitChunk dl t)))"
  proof (cases "bufferCount s < CHUNK_SIZE")
    case True
    with c assms show ?thesis by (simp add: transmitChunk_fail)
  next
    case False
    then have en: "CHUNK_SIZE \<le> bufferCount s" "CHUNK_SIZE \<le> bufferCount t" using c by simp_all
    note es = extractChunk_buffered[OF inv(1) en(1)] and et = extractChunk_buffered[OF inv(2) en(2)]
    show ?thesis
      using assms es(3,4,5) et(3,4,5)
        extractChunk_readIndex[OF inv(1) en(1)] extractChunk_readIndex[OF inv(2) en(2)]
      by (simp add: sim_def transmitChunk_ok(2)[OF inv(1) en(1)] transmitChunk_ok(2)[OF inv(2) en(2)]
          buf_inv_seqNumber buffered_seqNumber extractChunk_misc extractChunk_streaming)
  qed
  show "snd (snd (transmitChunk dl s)) = snd (snd (transmitChunk dl t))"
  proof (cases "bufferCount s < CHUNK_SIZE")
    case True
    with c show ?thesis by (simp add: transmitChunk_fail)
  next
    case False
    then have en: "CHUNK_SIZE \<le> bufferCount s" "CHUNK_SIZE \<le> bufferCount t" using c by simp_all
    show ?thesis
      unfolding transmitChunk_effects[OF inv(1) en(1)] transmitChunk_effects[OF inv(2) en(2)]
      by (simp add: b q)
  qed
qed

lemma buf_inv_flags:
  "buf_inv (s\<lparr>streaming := a\<rparr>) = buf_inv s"
  "buf_inv (s\<lparr>streamingStartTime := n\<rparr>) = buf_inv s"
  "buf_inv (s\<lparr>sensorConfigured := c\<rparr>) = buf_inv s"
  by (simp_all add: buf_inv_def in_range_def arrays_ok_def)

lemma buffered_flags:
  "buffered (s\<lparr>streaming := a\<rparr>) = buffered s"
  "buffered (s\<lparr>streamingStartTime := n\<rparr>) = buffered s"
  "buffered (s\<lparr>sensorConfigured := c\<rparr>) = buffered s"
  by (simp_all add: buffered_def)

lemma sim_handleCommands:
  assumes "sim s t"
  shows "sim (fst (snd (handleCommands dl now w s))) (fst (snd (handleCommands dl now w t)))"
    and "snd (snd (handleCommands dl now w s)) = snd (snd (handleCommands dl now w t))"
  using assms
  by (auto simp: sim_def handleCommands_def Let_def configureSensor_def printStreamingSummary_def
      buf_inv_flags buffered_flags split: option.splits)

lemma sim_resetStreamingState:
  assumes "arrays_ok s" "arrays_ok t" "sensorConfigured s = sensorConfigured t"
  shows "sim (fst (resetStreamingState dl s)) (fst (resetStreamingState dl t))"
    and "snd (resetStreamingState dl s) = snd (resetStreamingState dl t)"
  using assms resetStreamingState_buf_inv[of s dl] resetStreamingState_buf_inv[of t dl]
  by (simp_all add: sim_def) (simp_all add: resetStreamingState_def buffered_def)

lemma sim_handleDisconnect:
  assumes "sim s t"
  shows "sim (fst (handleDisconnect dl now s)) (fst (handleDisconnect dl now t))"
    and "snd (handleDisconnect dl now s) = snd (handleDisconnect dl now t)"
proof -
  from assms have a: "arrays_ok s" "arrays_ok t" by (simp_all add: sim_def buf_inv_def)
  show "sim (fst (handleDisconnect dl now s)) (fst (handleDisconnect dl now t))"
    using handleDisconnect_buf_inv[OF a(1), of dl now] handleDisconnect_buf_inv[OF a(2), of dl now]
    by (simp add: sim_def) (simp add: handleDisconnect_def resetStreamingState_def shutdownSensor_def buffered_def)
  show "snd (handleDisconnect dl now s) = snd (handleDisconnect dl now t)"
    using assms
    by (auto simp: sim_def handleDisconnect_def resetStreamingState_def shutdownSensor_def
        printStreamingSummary_def)
qed

lemma sim_exec:
  assumes "sim s t"
  shows "sim (fst (exec dl e s)) (fst (exec dl e t)) \<and> snd (exec dl e s) = snd (exec dl e t)"
proof (cases e)
  case Connect
  from assms have "arrays_ok s" "arrays_ok t" "sensorConfigured s = sensorConfigured t"
    by (simp_all add: sim_def buf_inv_def)
  from sim_resetStreamingState[OF this, of dl] Connect show ?thesis by simp
next
  case (Command w now)
  with sim_handleCommands[OF assms, of dl now w] show ?thesis by simp
next
  case (Poll avail)
  with sim_pollSensor[OF assms, of dl avail] show ?thesis by simp
next
  case Transmit
  with sim_transmitChunk[OF assms, of dl] show ?thesis by simp
next
  case (Disconnect now)
  with sim_handleDisconnect[OF assms, of dl now] show ?thesis by simp
qed

lemma sim_run:
  "sim s t \<Longrightarrow> sim (fst (run dl es s)) (fst (run dl es t)) \<and> snd (run dl es s) = snd (run dl es t)"
proof (induction es arbitrary: s t)
  case Nil
  then show ?case by simp
next
  case (Cons e es)
  note st = sim_exec[OF Cons.prems, of dl e]
  from Cons.IH[OF conjunct1[OF st]] st show ?case
    by (simp add: split_beta)
qed

lemma run_append_fst: "fst (run dl (xs @ ys) s) = fst (run dl ys (fst (run dl xs s)))"
  by (induction xs arbitrary: s) (simp_all add: split_beta)

lemma sim_after_disconnect:
  assumes "arrays_ok s"
  shows "sim (fst (handleDisconnect dl now s)) init_state"
  using handleDisconnect_buf_inv[OF assms, of dl now] init_buf_inv
  by (simp add: sim_def)
     (simp add: handleDisconnect_def resetStreamingState_def shutdownSensor_def buffered_def init_state_def)

lemma run_arrays_ok:
  assumes "arrays_ok s"
  shows "arrays_ok (fst (run dl (Connect # es) s))"
proof -
  have "buf_inv (fst (run dl es (fst (resetStreamingState dl s))))"
    by (rule run_buf_inv[OF resetStreamingState_buf_inv[OF assms]])
  then show ?thesis by (simp add: split_beta buf_inv_def)
qed

lemma loop_final:
  "fst (loop dl passes nowD s) =
     fst (handleDisconnect dl nowD (fst (run dl (Connect # concat (map passEvents passes)) s)))"
proof -
  have "loopEvents passes nowD = (Connect # concat (map passEvents passes)) @ [Disconnect nowD]"
    by (simp add: loopEvents_def)
  then show ?thesis
    unfolding loop_def by (simp only: run_append_fst) (simp add: split_beta)
qed

lemma handleDisconnect_fields:
  "\<not> sensorConfigured (fst (handleDisconnect dl now s))"
  "streamingStartTime (fst (handleDisconnect dl now s)) = streamingStartTime s"
  by (simp_all add: handleDisconnect_def resetStreamingState_def shutdownSensor_def)

lemma loop_unfold:
  "loop dl passes nowD s =
     (fst (run dl (concat (map passEvents passes) @ [Disconnect nowD]) (fst (resetStreamingState dl s))),
      snd (resetStreamingState dl s) @
      snd (run dl (concat (map passEvents passes) @ [Disconnect nowD]) (fst (resetStreamingState dl s))))"
  by (simp add: loop_def loopEvents_def split_beta)

lemma arrays_ok_init: "arrays_ok init_state" "\<not> sensorConfigured init_state"
  by (simp_all add: arrays_ok_def init_state_def)

lemma reset_unobservable:
  assumes "arrays_ok s" "\<not> sensorConfigured s"
  shows "snd (run dl es (fst (resetStreamingState dl s))) =
           snd (run dl es (fst (resetStreamingState dl init_state)))"
    and "snd (loop dl passes nowD s) = snd (loop dl passes nowD init_state)"
proof -
  have eq: "sensorConfigured s = sensorConfigured init_state"
    using assms(2) arrays_ok_init(2) by simp
  note r = sim_resetStreamingState[OF assms(1) arrays_ok_init(1) eq, of dl]
  from sim_run[OF r(1), of dl es]
  show "snd (run dl es (fst (resetStreamingState dl s))) =
           snd (run dl es (fst (resetStreamingState dl init_state)))"
    by simp
  from sim_run[OF r(1), of dl "concat (map passEvents passes) @ [Disconnect nowD]"] r(2)
  show "snd (loop dl passes nowD s) = snd (loop dl passes nowD init_state)"
    by (simp add: loop_unfold)
qed

lemma loop_leaves:
  assumes "arrays_ok s"
  shows "arrays_ok (fst (loop dl passes nowD s))" "\<not> sensorConfigured (fst (loop dl passes nowD s))"
proof -
  have "buf_inv (fst (loop dl passes nowD s))"
    unfolding loop_final by (rule handleDisconnect_buf_inv[OF run_arrays_ok[OF assms]])
  then show "arrays_ok (fst (loop dl passes nowD s))" by (simp add: buf_inv_def)
  show "\<not> sensorConfigured (fst (loop dl passes nowD s))"
    unfolding loop_final by (rule handleDisconnect_fields(1))
qed

text \<open>
  Claim C9, as the code has it. \<open>loop\<close> serves a connection by calling
  \<open>resetStreamingState\<close> first and running the passes and the disconnect handler from the
  state it returns. That state has the streaming flag, the sequence counter, both indices,
  the fill count and the sample counter cleared. The start time and the sensor flag are
  kept, as are the array contents. The sensor flag is cleared by the disconnect handler, so
  every state a connection leaves has it clear; from any such state, whatever else it
  holds, every sequence of events after the reset, and the whole next connection, produce
  the same effects as from the power-up state.
\<close>

theorem accept_resets_pipeline:
  assumes "arrays_ok s"
  shows "loop dl passes nowD s =
           (fst (run dl (concat (map passEvents passes) @ [Disconnect nowD]) (fst (resetStreamingState dl s))),
            snd (resetStreamingState dl s) @
            snd (run dl (concat (map passEvents passes) @ [Disconnect nowD]) (fst (resetStreamingState dl s)))) \<and>
         \<not> streaming (fst (resetStreamingState dl s)) \<and>
         seqNumber (fst (resetStreamingState dl s)) = 0 \<and>
         writeIndex (fst (resetStreamingState dl s)) = 0 \<and>
         readIndex (fst (resetStreamingState dl s)) = 0 \<and>
         bufferCount (fst (resetStreamingState dl s)) = 0 \<and>
         totalSamplesDuringStream (fst (resetStreamingState dl s)) = 0 \<and>
         streamingStartTime (fst (resetStreamingState dl s)) = streamingStartTime s \<and>
         sensorConfigured (fst (resetStreamingState dl s)) = sensorConfigured s \<and>
         (\<not> sensorConfigured s \<longrightarrow>
            snd (run dl es (fst (resetStreamingState dl s))) =
              snd (run dl es (fst (resetStreamingState dl init_state))) \<and>
            snd (loop dl passes nowD s) = snd (loop dl passes nowD init_state)) \<and>
         arrays_ok (fst (loop dl passes nowD s)) \<and>
         \<not> sensorConfigured (fst (loop dl passes nowD s))"
proof -
  have f: "\<not> streaming (fst (resetStreamingState dl s)) \<and>
         seqNumber (fst (resetStreamingState dl s)) = 0 \<and>
         writeIndex (fst (resetStreamingState dl s)) = 0 \<and>
         readIndex (fst (resetStreamingState dl s)) = 0 \<and>
         bufferCount (fst (resetStreamingState dl s)) = 0 \<and>
         totalSamplesDuringStream (fst (resetStreamingState dl s)) = 0 \<and>
         streamingStartTime (fst (resetStreamingState dl s)) = streamingStartTime s \<and>
         sensorConfigured (fst (resetStreamingState dl s)) = sensorConfigured s"
    by (simp add: resetStreamingState_def)
  show ?thesis
    using f loop_unfold[of dl passes nowD s] reset_unobservable(1)[OF assms, of dl es]
      reset_unobservable(2)[OF assms, of dl passes nowD] loop_leaves[OF assms, of dl passes nowD]
    by blast
qed

lemma staleState_fields:
  "arrays_ok staleState" "\<not> sensorConfigured staleState" "streaming staleState"
  "seqNumber staleState = 1" "bufferCount staleState = 8" "totalSamplesDuringStream staleState = 40"
  "streamingStartTime staleState = 20"
proof -
  have "buf_inv staleState"
    unfolding staleState_def buf_inv_flags by (rule run_buf_inv[OF init_buf_inv])
  then show "arrays_ok staleState" by (simp add: buf_inv_def)
  show "\<not> sensorConfigured staleState" "streaming staleState"
    "seqNumber staleState = 1" "bufferCount staleState = 8" "totalSamplesDuringStream staleState = 40"
    "streamingStartTime staleState = 20"
    by (simp_all add: staleState_def run_eval split_beta length_ramp)
qed

theorem accept_resets_pipeline_witness:
  "arrays_ok staleState \<and> \<not> sensorConfigured staleState \<and> streaming staleState \<and>
   seqNumber staleState = 1 \<and> bufferCount staleState = 8 \<and> totalSamplesDuringStream staleState = 40 \<and>
   \<not> streaming (fst (resetStreamingState 0 staleState)) \<and>
   seqNumber (fst (resetStreamingState 0 staleState)) = 0 \<and>
   bufferCount (fst (resetStreamingState 0 staleState)) = 0 \<and>
   totalSamplesDuringStream (fst (resetStreamingState 0 staleState)) = 0 \<and>
   snd (loop 0 [(Some CHR ''S'', 3, ramp 40)] 9 staleState) =
     snd (loop 0 [(Some CHR ''S'', 3, ramp 40)] 9 init_state)"
proof -
  note t = accept_resets_pipeline[OF staleState_fields(1), of 0 "[(Some CHR ''S'', 3, ramp 40)]" 9 "[]"]
  from t staleState_fields(2)
  have "snd (loop 0 [(Some CHR ''S'', 3, ramp 40)] 9 staleState) =
     snd (loop 0 [(Some CHR ''S'', 3, ramp 40)] 9 init_state)"
    by blast
  moreover from t have "\<not> streaming (fst (resetStreamingState 0 staleState))"
    "seqNumber (fst (resetStreamingState 0 staleState)) = 0"
    "bufferCount (fst (resetStreamingState 0 staleState)) = 0"
    "totalSamplesDuringStream (fst (resetStreamingState 0 staleState)) = 0"
    by blast+
  ultimately show ?thesis
    using staleState_fields by simp
qed

text \<open>
  As stated, the claim fails for the session start time: the state a connection leaves has
  the start time 20 of its session, and the reset of the next connection keeps it.
\<close>

theorem start_time_survives_reset:
  "streamingStartTime leftoverState = 20 \<and>
   streamingStartTime (fst (resetStreamingState 0 leftoverState)) = 20 \<and>
   streamingStartTime (fst (run 0 [Connect] leftoverState)) = 20"
proof -
  have "streamingStartTime leftoverState = 20"
    unfolding leftoverState_def loop_final handleDisconnect_fields
    by (simp add: passEvents_def run_eval split_beta length_ramp)
  then show ?thesis
    by (simp add: resetStreamingState_def)
qed

end
